theory Spec2Isabelle
  imports Complex_Main "HOL-Library.Log_Nat" "HOL-Library.Sublist"
begin

text \<open>
  A model of \<^verbatim>\<open>queryLogEmulator.c\<close>, the program that rewrites a query log for an
  emulated corpus: every word of a query is looked up in the vocabulary of the base
  corpus, sorted by word, and replaced by the word of the same frequency rank in the
  vocabulary of the emulated corpus. The functions of the file, \<^verbatim>\<open>vocabCmp\<close>,
  \<^verbatim>\<open>getRankInBase\<close> and the query loop of \<^verbatim>\<open>main\<close>, come first, with the functions of
  the C library that they call; the properties follow. Line numbers are those of
  \<^verbatim>\<open>src/queryLogEmulator.c\<close>.
\<close>

section \<open>Bytes and C strings\<close>

text \<open>
  A byte of a file or of a buffer is a \<^typ>\<open>char\<close>; \<open>u_char c\<close> is its value when the
  code reads it through a \<^verbatim>\<open>u_char *\<close>, \<open>plain_char signed c\<close> its value when the code
  reads it through a plain \<^verbatim>\<open>char *\<close>, which is signed (\<open>signed\<close>) or unsigned as the
  compiler decides.

  A pointer into a buffer or into a memory-mapped file is the list of the bytes from the
  pointer on. A read at the end of that list gives NUL: the terminator that
  \<^verbatim>\<open>fgets\<close>, the tokenizer and \<^verbatim>\<open>sprintf\<close> write after a string, and the zero fill
  after the last byte of a mapped file.
\<close>

definition u_char :: "char \<Rightarrow> int" where
  "u_char c = int (of_char c)"

definition plain_char :: "bool \<Rightarrow> char \<Rightarrow> int" where
  "plain_char signed c = (if signed \<and> 128 \<le> u_char c then u_char c - 256 else u_char c)"

definition peek :: "string \<Rightarrow> char" where
  "peek p = (case p of [] \<Rightarrow> CHR 0x00 | c # _ \<Rightarrow> c)"

text \<open>
  What can go wrong in C where HOL would go on: a number that this model of
  \<^verbatim>\<open>strtod\<close> does not read, a \<^verbatim>\<open>double\<close> outside the range of \<^verbatim>\<open>int\<close>
  converted to \<^verbatim>\<open>int\<close>, an \<^verbatim>\<open>int\<close> that overflows, and a read outside an array.
\<close>

datatype fault = Strtod_outside_model | Conversion_undefined | Signed_overflow | Out_of_bounds

section \<open>The word comparison\<close>

text \<open>
  \<^verbatim>\<open>vocabCmp\<close> (lines 85 to 109). Both arguments are read as \<^verbatim>\<open>u_char\<close>:
  \<^verbatim>\<open>
  while (*i > ' ' && *j > ' ' && (*i == *j)) { i++;  j++; }
  if (*i <= ' ' && *j <= ' ') return 0;
  if (*j <= ' ') return 1;
  if (*i <= ' ') return -1;
  if (*i < *j) return -1;
  return 1;
  \<close>
\<close>

function vocabCmp :: "string \<Rightarrow> string \<Rightarrow> int" where
  "vocabCmp i j =
     (if u_char (peek i) > 32 \<and> u_char (peek j) > 32 \<and> peek i = peek j
      then vocabCmp (tl i) (tl j)
      else if u_char (peek i) \<le> 32 \<and> u_char (peek j) \<le> 32 then 0
      else if u_char (peek j) \<le> 32 then 1
      else if u_char (peek i) \<le> 32 then - 1
      else if u_char (peek i) < u_char (peek j) then - 1
      else 1)"
  by pat_completeness auto
termination
proof (relation "measure (\<lambda>(i, j). length i)")
  fix i j :: string
  assume "32 < u_char (peek i) \<and> 32 < u_char (peek j) \<and> peek i = peek j"
  then have "i \<noteq> []"
    by (cases i) (simp_all add: peek_def u_char_def)
  then show "((tl i, tl j), (i, j)) \<in> measure (\<lambda>(i, j). length i)"
    by simp
qed simp

declare vocabCmp.simps [simp del]

text \<open>The word a pointer stands at: the bytes before the first byte that is at most a space.\<close>

definition word_of :: "string \<Rightarrow> string" where
  "word_of p = takeWhile (\<lambda>c. u_char c > 32) p"

definition after_word :: "string \<Rightarrow> string" where
  "after_word p = dropWhile (\<lambda>c. u_char c > 32) p"

section \<open>The C library\<close>

subsection \<open>bsearch\<close>

text \<open>
  The C library's \<^verbatim>\<open>bsearch\<close>, as glibc implements it, over the array \<open>base\<close> of
  line pointers with \<^verbatim>\<open>vocabCmp\<close> as its comparison (line 123). The second component
  counts the calls of the comparison.
  \<^verbatim>\<open>
  l = 0; u = nmemb;
  while (l < u) {
    idx = (l + u) / 2;
    comparison = (*compar)(key, base + idx * size);
    if (comparison < 0) u = idx;
    else if (comparison > 0) l = idx + 1;
    else return base + idx * size;
  }
  return NULL;
  \<close>
\<close>

definition tick :: "'a \<times> nat \<Rightarrow> 'a \<times> nat" where
  "tick r = (fst r, Suc (snd r))"

function bsearch :: "string \<Rightarrow> string list \<Rightarrow> nat \<Rightarrow> nat \<Rightarrow> nat option \<times> nat" where
  "bsearch key base l u =
     (if l < u then
        (let idx = (l + u) div 2; comparison = vocabCmp key (base ! idx)
         in if comparison < 0 then tick (bsearch key base l idx)
            else if comparison > 0 then tick (bsearch key base (idx + 1) u)
            else (Some idx, 1))
      else (None, 0))"
  by pat_completeness auto
termination
  by (relation "measure (\<lambda>(key, base, l, u). u - l)") auto

declare bsearch.simps [simp del]

subsection \<open>strtod\<close>

text \<open>
  The C library's \<^verbatim>\<open>strtod\<close> in the C locale, for the numbers written as an optional
  sign and decimal digits: it skips white space, reads the sign and the digits, and
  leaves the end pointer after the last digit; where no number starts, the value is 0 and
  the end pointer is the argument. The result is \<open>None\<close> for what this model does not
  read: a fraction, an exponent, a hexadecimal number, an infinity or a NaN.
\<close>

definition isspace :: "char \<Rightarrow> bool" where
  "isspace c \<longleftrightarrow> u_char c = 32 \<or> (9 \<le> u_char c \<and> u_char c \<le> 13)"

definition isdigit :: "char \<Rightarrow> bool" where
  "isdigit c \<longleftrightarrow> 48 \<le> u_char c \<and> u_char c \<le> 57"

definition decimal :: "string \<Rightarrow> int" where
  "decimal ds = foldl (\<lambda>a c. 10 * a + (u_char c - 48)) 0 ds"

definition strtod :: "string \<Rightarrow> (int \<times> string) option" where
  "strtod nptr =
     (let s = dropWhile isspace nptr;
          t = (if peek s = CHR ''-'' \<or> peek s = CHR ''+'' then tl s else s);
          ds = takeWhile isdigit t;
          endptr = dropWhile isdigit t
      in if ds = [] then
           (if peek t \<in> set ''.iInN'' then None else Some (0, nptr))
         else if peek endptr \<in> set ''.eExX'' then None
         else Some (if peek s = CHR ''-'' then - decimal ds else decimal ds, endptr))"

subsection \<open>sprintf with the format %d\<close>

definition digit_char :: "nat \<Rightarrow> char" where
  "digit_char d = char_of (48 + d)"

function dec_digits :: "nat \<Rightarrow> string" where
  "dec_digits n = (if n < 10 then [digit_char n] else dec_digits (n div 10) @ [digit_char (n mod 10)])"
  by pat_completeness auto
termination
  by (relation "measure id") auto

declare dec_digits.simps [simp del]

definition sprintf_d :: "int \<Rightarrow> string" where
  "sprintf_d n = (if n < 0 then CHR ''-'' # dec_digits (nat (- n)) else dec_digits (nat n))"

subsection \<open>fgets and strlen\<close>

text \<open>
  \<^verbatim>\<open>fgets(buf, n, stream)\<close> on the bytes that remain of the stream: \<open>None\<close> at the
  end of the file, else the bytes stored (at most \<open>n - 1\<close>, through the first newline)
  and the bytes that remain.
\<close>

definition fgets :: "nat \<Rightarrow> string \<Rightarrow> (string \<times> string) option" where
  "fgets n stream =
     (if stream = [] then None
      else let line = takeWhile (\<lambda>c. c \<noteq> CHR 0x0A) stream;
               k = (if length line < length stream then length line + 1 else length line);
               m = min k (n - 1)
           in Some (take m stream, drop m stream))"

definition strlen :: "string \<Rightarrow> nat" where
  "strlen s = length (takeWhile (\<lambda>c. c \<noteq> CHR 0x00) s)"

subsection \<open>Arithmetic of double\<close>

text \<open>
  A \<^verbatim>\<open>double\<close> is the real number it stands for. \<open>to_double\<close> rounds a real number to
  the nearest binary64 number, ties to even, with 53 bits in the normal range and the
  fixed spacing \<open>2 powi - 1074\<close> below it; overflow is left out, the products of this
  program being less than \<open>2 ^ 31\<close>. \<open>binade x\<close> is the exponent \<open>e\<close> with
  \<open>2 powi e \<le> x < 2 powi (e + 1)\<close>.
\<close>

definition binade :: "real \<Rightarrow> int" where
  "binade x = (if 1 \<le> x then int (floorlog 2 (nat \<lfloor>x\<rfloor>)) - 1 else - int (ceillog2 (nat \<lceil>1 / x\<rceil>)))"

definition round_half_even :: "real \<Rightarrow> int" where
  "round_half_even q =
     (if q - of_int \<lfloor>q\<rfloor> < 1 / 2 then \<lfloor>q\<rfloor>
      else if q - of_int \<lfloor>q\<rfloor> > 1 / 2 then \<lfloor>q\<rfloor> + 1
      else if even \<lfloor>q\<rfloor> then \<lfloor>q\<rfloor> else \<lfloor>q\<rfloor> + 1)"

definition round_pos :: "real \<Rightarrow> real" where
  "round_pos x =
     (if x = 0 then 0
      else of_int (round_half_even (x / 2 powi (max (binade x) (- 1022) - 52)))
             * 2 powi (max (binade x) (- 1022) - 52))"

definition to_double :: "real \<Rightarrow> real" where
  "to_double x = (if x < 0 then - round_pos (- x) else round_pos x)"

definition binary64 :: "real \<Rightarrow> bool" where
  "binary64 x \<longleftrightarrow> to_double x = x"

definition double_mult :: "real \<Rightarrow> real \<Rightarrow> real" where
  "double_mult a b = to_double (a * b)"

text \<open>The constants \<^verbatim>\<open>0.6666667\<close> and \<^verbatim>\<open>0.3333333\<close> of lines 264 and 265, as binary64.\<close>

definition const_0_6666667 :: real where
  "const_0_6666667 = 1501199950850159 / 2251799813685248"

definition const_0_3333333 :: real where
  "const_0_3333333 = 6004798902680711 / 18014398509481984"

section \<open>The program's data\<close>

text \<open>
  \<^verbatim>\<open>globals_t\<close>: the two vocabularies, each an array of pointers to the lines of a
  memory-mapped file; \<^verbatim>\<open>baseVocabLineCount\<close> and \<^verbatim>\<open>emuVocabLineCount\<close> are the
  lengths of the lists. \<^verbatim>\<open>params_t\<close>: the two options that change the output.
\<close>

record globals_t =
  baseVocabLines :: "string list"
  emuVocabLines :: "string list"

record params_t =
  obfuscate :: bool
  preserveNoExists :: bool

text \<open>
  What the program takes from outside \<^verbatim>\<open>queryLogEmulator.c\<close>: \<open>rand_val k\<close> is the
  value of call \<open>k\<close> of \<^verbatim>\<open>rand_val(0)\<close>, \<open>char_signed\<close> tells whether plain
  \<^verbatim>\<open>char\<close> is signed, and \<open>split_line\<close> is the tokenizer
  \<^verbatim>\<open>utf8_split_line_into_null_terminated_words\<close>, from the stripped line to its words.
\<close>

record environment =
  rand_val :: "nat \<Rightarrow> real"
  char_signed :: bool
  split_line :: "string \<Rightarrow> string list"

text \<open>
  The variables of \<^verbatim>\<open>main\<close> that the loop over the queries changes, with the number of
  calls of \<^verbatim>\<open>rand_val(0)\<close> made so far and the bytes written to the output file.
  \<open>trace\<close> is no variable of the program: it records, for the statements below, every
  query word looked up and the bytes written for it, in the order of the run; nothing
  reads it.
\<close>

record run_state =
  noexistNum :: int
  rand_calls :: nat
  queryOutfile :: string
  trace :: "(string \<times> string) list"

section \<open>getRankInBase\<close>

text \<open>
  The loop over the three numeric fields (lines 137 to 151); \<open>p\<close> stands after the tab
  that ends the word. The assignment \<^verbatim>\<open>rank = strtod(p, &q)\<close> converts a
  \<^verbatim>\<open>double\<close> to \<^verbatim>\<open>int\<close>.
  \<^verbatim>\<open>
  for (field = 2; field < 5; field++) {
    rank = strtod(p, (char **)&q);
    if (*q == '\t') p = q + 1;
    else if (*q < ' ' && field !=4) { ...; return 1818; }
    else if (*q && *q != '\r' && *q != '\n') { ...; return 2929; }
  }
  return rank;
  \<close>
\<close>

function fields_loop :: "nat \<Rightarrow> string \<Rightarrow> int \<Rightarrow> fault + int" where
  "fields_loop field p rank =
     (if field < 5 then
        (case strtod p of
           None \<Rightarrow> Inl Strtod_outside_model
         | Some (v, q) \<Rightarrow>
             if v < - (2 ^ 31) \<or> 2 ^ 31 \<le> v then Inl Conversion_undefined
             else if peek q = CHR 0x09 then fields_loop (field + 1) (tl q) v
             else if u_char (peek q) < 32 \<and> field \<noteq> 4 then Inr 1818
             else if peek q \<noteq> CHR 0x00 \<and> peek q \<noteq> CHR 0x0D \<and> peek q \<noteq> CHR 0x0A then Inr 2929
             else fields_loop (field + 1) p v)
      else Inr rank)"
  by pat_completeness auto
termination
  by (relation "measure (\<lambda>(field, p, rank). 5 - field)") auto

declare fields_loop.simps [simp del]

text \<open>
  \<^verbatim>\<open>getRankInBase\<close> (lines 112 to 155): \<open>- 1\<close> when \<^verbatim>\<open>bsearch\<close> finds no line,
  else the result of the loop over the fields of the line found, started after the word
  and one more byte (\<^verbatim>\<open>while (*p > ' ') p++;  p++;\<close>).
\<close>

definition getRankInBase :: "globals_t \<Rightarrow> string \<Rightarrow> fault + int" where
  "getRankInBase globals inWord =
     (case fst (bsearch inWord (baseVocabLines globals) 0 (length (baseVocabLines globals))) of
        None \<Rightarrow> Inr (- 1)
      | Some k \<Rightarrow> fields_loop 2 (tl (after_word (baseVocabLines globals ! k))) 0)"

section \<open>main\<close>

text \<open>
  The rank jitter (lines 263 to 265), given the draw \<open>r\<close>:
  \<^verbatim>\<open>
  if (r > 0.6666667) rank0++;
  else if (rank0 > 0 && r < 0.3333333) rank0--;
  \<close>
\<close>

definition jitter :: "real \<Rightarrow> int \<Rightarrow> int" where
  "jitter r rank0 =
     (if r > const_0_6666667 then rank0 + 1
      else if rank0 > 0 \<and> r < const_0_3333333 then rank0 - 1
      else rank0)"

text \<open>\<^verbatim>\<open>(int)floor(rand_val(0) * (double)globals.emuVocabLineCount)\<close> (lines 274 and 284).\<close>

definition random_index :: "real \<Rightarrow> nat \<Rightarrow> int" where
  "random_index r count = \<lfloor>double_mult r (real count)\<rfloor>"

text \<open>\<^verbatim>\<open>globals.emuVocabLines[rank0]\<close> (lines 275 and 286).\<close>

definition line_at :: "string list \<Rightarrow> int \<Rightarrow> fault + string" where
  "line_at lines k = (if 0 \<le> k \<and> k < int (length lines) then Inr (lines ! nat k) else Inl Out_of_bounds)"

text \<open>
  The choice of the output word for one query word (lines 261 to 288): the pointer \<open>p\<close>
  that the output loop starts from, and the state after it. \<open>draw\<close> is one call of
  \<^verbatim>\<open>rand_val(0)\<close>; \<open>random_line\<close> is the draw of a random line, which lines 274 to 276
  and lines 284 to 287 do alike; \<open>choose_word\<close> is the code from line 267 on and
  \<open>resolve\<close> the whole.
  \<^verbatim>\<open>
  rank0 = getRankInBase(&globals, &params, wordStarts[q]) -1;
  if (params.obfuscate  && rank0 >= 0) {
    double r = rand_val(0);
    if (r > 0.6666667) rank0++;
    else if (rank0 > 0 && r < 0.3333333) rank0--;
  }
  if (rank0 < 0) {
    if (params.preserveNoExists) {
      sprintf(noexist + 7, "%d", noexistNum++);
      p = noexist;
    } else {
      rank0 = (int)floor(rand_val(0) * (double)globals.emuVocabLineCount);
      outWord = globals.emuVocabLines[rank0];
      p = outWord;
    }
  } else {
    if (rank0 >= globals.emuVocabLineCount) {
      rank0 = (int)floor(rand_val(0) * (double)globals.emuVocabLineCount);
    }
    outWord = globals.emuVocabLines[rank0];
    p = outWord;
  }
  \<close>
\<close>

definition draw :: "environment \<Rightarrow> run_state \<Rightarrow> real \<times> run_state" where
  "draw env st = (rand_val env (rand_calls st), st\<lparr>rand_calls := Suc (rand_calls st)\<rparr>)"

definition random_line :: "environment \<Rightarrow> globals_t \<Rightarrow> run_state \<Rightarrow> fault + string \<times> run_state" where
  "random_line env globals st =
     (case line_at (emuVocabLines globals)
             (random_index (fst (draw env st)) (length (emuVocabLines globals))) of
        Inl f \<Rightarrow> Inl f
      | Inr outWord \<Rightarrow> Inr (outWord, snd (draw env st)))"

definition choose_word :: "environment \<Rightarrow> globals_t \<Rightarrow> params_t \<Rightarrow> int \<Rightarrow> run_state
    \<Rightarrow> fault + string \<times> run_state" where
  "choose_word env globals params rank0 st =
     (if rank0 < 0 then
        (if preserveNoExists params then
           (if noexistNum st = 2 ^ 31 - 1 then Inl Signed_overflow
            else Inr (''noexist'' @ sprintf_d (noexistNum st), st\<lparr>noexistNum := noexistNum st + 1\<rparr>))
         else random_line env globals st)
      else if rank0 \<ge> int (length (emuVocabLines globals)) then random_line env globals st
      else (case line_at (emuVocabLines globals) rank0 of
              Inl f \<Rightarrow> Inl f
            | Inr outWord \<Rightarrow> Inr (outWord, st)))"

definition resolve :: "environment \<Rightarrow> globals_t \<Rightarrow> params_t \<Rightarrow> string \<Rightarrow> run_state
    \<Rightarrow> fault + string \<times> run_state" where
  "resolve env globals params inWord st =
     (case getRankInBase globals inWord of
        Inl f \<Rightarrow> Inl f
      | Inr rank \<Rightarrow>
          if rank = - (2 ^ 31) then Inl Signed_overflow
          else if obfuscate params \<and> rank - 1 \<ge> 0
          then choose_word env globals params (jitter (fst (draw env st)) (rank - 1)) (snd (draw env st))
          else choose_word env globals params (rank - 1) st)"

text \<open>
  The output loop (lines 290 to 293) reads through \<^verbatim>\<open>char *p\<close>, a plain
  \<^verbatim>\<open>char\<close>: \<^verbatim>\<open>while (*p > ' ') { fputc(*p, globals.queryOutfile);  p++; }\<close>.
\<close>

definition put_word :: "bool \<Rightarrow> string \<Rightarrow> string" where
  "put_word signed p = takeWhile (\<lambda>c. plain_char signed c > 32) p"

text \<open>
  The loop over the words of a query (lines 257 to 295); \<open>q\<close> is the index of the first
  word of the list, and a space goes before every word but the first
  (\<^verbatim>\<open>if (q >0) fputc(' ', globals.queryOutfile);\<close>).
\<close>

fun word_loop :: "environment \<Rightarrow> globals_t \<Rightarrow> params_t \<Rightarrow> nat \<Rightarrow> string list \<Rightarrow> run_state
    \<Rightarrow> fault + run_state" where
  "word_loop env globals params q [] st = Inr st"
| "word_loop env globals params q (w # ws) st =
     (case resolve env globals params w st of
        Inl f \<Rightarrow> Inl f
      | Inr (p, st') \<Rightarrow>
          word_loop env globals params (Suc q) ws
            (st'\<lparr>queryOutfile :=
                  queryOutfile st' @ (if q > 0 then '' '' else []) @ put_word (char_signed env) p,
                trace := trace st' @ [(w, put_word (char_signed env) p)]\<rparr>))"

text \<open>
  The loop that strips the end of the line (line 241),
  \<^verbatim>\<open>while (fgetsBuf[lineLen -1] < ' ') lineLen--;\<close>, on the \<^verbatim>\<open>u_char\<close> buffer: the
  final length and the indices read, in the order of the reads. At length 0 the read is
  before the buffer.
\<close>

fun strip_loop :: "string \<Rightarrow> nat \<Rightarrow> fault + nat \<times> nat list" where
  "strip_loop fgetsBuf 0 = Inl Out_of_bounds"
| "strip_loop fgetsBuf (Suc n) =
     (if u_char (fgetsBuf ! n) < 32
      then (case strip_loop fgetsBuf n of
              Inl f \<Rightarrow> Inl f
            | Inr (lineLen, reads) \<Rightarrow> Inr (lineLen, n # reads))
      else Inr (Suc n, [n]))"

text \<open>
  The body of the loop over the queries (lines 240 to 297), for one buffer read: the
  length up to the first NUL, the loop that strips the end, the tokenizer on the stripped
  line, the loop over the words, and \<^verbatim>\<open>fputc('\n', globals.queryOutfile)\<close>.
\<close>

definition process_line :: "environment \<Rightarrow> globals_t \<Rightarrow> params_t \<Rightarrow> string \<Rightarrow> run_state
    \<Rightarrow> fault + run_state" where
  "process_line env globals params fgetsBuf st =
     (case strip_loop fgetsBuf (strlen fgetsBuf) of
        Inl f \<Rightarrow> Inl f
      | Inr (lineLen, reads) \<Rightarrow>
          (case word_loop env globals params 0 (split_line env (take lineLen fgetsBuf)) st of
             Inl f \<Rightarrow> Inl f
           | Inr st' \<Rightarrow> Inr (st'\<lparr>queryOutfile := queryOutfile st' @ [CHR 0x0A]\<rparr>)))"

text \<open>The loop over the queries (lines 239 to 298), on the bytes of the query log.\<close>

function query_loop :: "environment \<Rightarrow> globals_t \<Rightarrow> params_t \<Rightarrow> string \<Rightarrow> run_state
    \<Rightarrow> fault + run_state" where
  "query_loop env globals params queryInfile st =
     (case fgets 10000 queryInfile of
        None \<Rightarrow> Inr st
      | Some (fgetsBuf, rest) \<Rightarrow>
          (case process_line env globals params fgetsBuf st of
             Inl f \<Rightarrow> Inl f
           | Inr st' \<Rightarrow> query_loop env globals params rest st'))"
  by pat_completeness auto
termination
proof (relation "measure (\<lambda>(env, globals, params, queryInfile, st). length queryInfile)")
  fix queryInfile rest fgetsBuf :: string and x :: "string \<times> string"
  assume "fgets 10000 queryInfile = Some x" and "(fgetsBuf, rest) = x"
  then have "length rest < length queryInfile"
    by (auto simp: fgets_def Let_def min_def split: if_splits)
  then show "\<And>env globals params st st'.
      ((env, globals, params, rest, st'), (env, globals, params, queryInfile, st))
        \<in> measure (\<lambda>(env :: environment, globals :: globals_t, params :: params_t, queryInfile, st :: run_state).
              length queryInfile)"
    by simp
qed simp

declare query_loop.simps [simp del]

text \<open>
  \<^verbatim>\<open>main\<close> from line 235 on: \<^verbatim>\<open>noexistNum\<close> starts at 0 and the output file is
  empty; the result is the state at the end of the query log.
\<close>

definition start :: run_state where
  "start = \<lparr>noexistNum = 0, rand_calls = 0, queryOutfile = [], trace = []\<rparr>"

definition main :: "environment \<Rightarrow> globals_t \<Rightarrow> params_t \<Rightarrow> string \<Rightarrow> fault + run_state" where
  "main env globals params queryInfile = query_loop env globals params queryInfile start"

text \<open>
  Modelled from the spec: the tokenizer \<^verbatim>\<open>utf8_split_line_into_null_terminated_words\<close>
  is not part of \<^verbatim>\<open>queryLogEmulator.c\<close>; the specification describes it as the
  tokenization of a line into words delimited by white space and control characters.
  \<open>split_words\<close> gives the maximal runs of bytes greater than a space.
\<close>

fun split_from :: "string \<Rightarrow> string \<Rightarrow> string list" where
  "split_from cur [] = (if cur = [] then [] else [cur])"
| "split_from cur (c # s) =
     (if u_char c > 32 then split_from (cur @ [c]) s
      else (if cur = [] then [] else [cur]) @ split_from [] s)"

definition split_words :: "string \<Rightarrow> string list" where
  "split_words s = split_from [] s"

section \<open>Vocabulary lines as the specification describes them\<close>

text \<open>
  A line of the base vocabulary: the word, then the occurrence frequency, the document
  frequency and the rank, each after a tab, then the end of the line and what follows it
  in the file. A number is a run of decimal digits whose value fits an \<^verbatim>\<open>int\<close>; the
  line ends at a line feed, a carriage return or the end of the file.
\<close>

definition tab :: string where
  "tab = [CHR 0x09]"

definition newline :: string where
  "newline = [CHR 0x0A]"

definition vocab_line :: "string \<Rightarrow> string \<Rightarrow> string \<Rightarrow> string \<Rightarrow> string \<Rightarrow> string" where
  "vocab_line w occ df rk rest = w @ tab @ occ @ tab @ df @ tab @ rk @ rest"

definition number :: "string \<Rightarrow> bool" where
  "number ds \<longleftrightarrow> ds \<noteq> [] \<and> list_all isdigit ds \<and> decimal ds < 2 ^ 31"

definition line_end :: "string \<Rightarrow> bool" where
  "line_end rest \<longleftrightarrow> peek rest \<in> set [CHR 0x00, CHR 0x0A, CHR 0x0D]"

section \<open>The words written in a run\<close>







section \<open>Examples\<close>

text \<open>
  The example of the specification: the base vocabulary file holds the lines
  \<^verbatim>\<open>apple 10 5 2\<close> and \<^verbatim>\<open>banana 20 8 1\<close> (tabs between the fields), the emulated
  vocabulary file the lines \<^verbatim>\<open>zeta\<close> and \<^verbatim>\<open>yak\<close>. A pointer to a line sees the
  rest of the file behind the line.
\<close>

definition banana_line :: string where
  "banana_line = ''banana'' @ tab @ ''20'' @ tab @ ''8'' @ tab @ ''1'' @ newline"

definition apple_line :: string where
  "apple_line = ''apple'' @ tab @ ''10'' @ tab @ ''5'' @ tab @ ''2'' @ newline @ banana_line"

definition yak_line :: string where
  "yak_line = ''yak'' @ newline"

definition zeta_line :: string where
  "zeta_line = ''zeta'' @ newline @ yak_line"

definition example_globals :: globals_t where
  "example_globals = \<lparr>baseVocabLines = [apple_line, banana_line], emuVocabLines = [zeta_line, yak_line]\<rparr>"

text \<open>
  An environment whose every draw is \<open>r\<close>, with the tokenizer \<open>split_words\<close>.
\<close>

definition const_env :: "real \<Rightarrow> bool \<Rightarrow> environment" where
  "const_env r signed = \<lparr>rand_val = (\<lambda>k. r), char_signed = signed, split_line = split_words\<rparr>"

text \<open>An emulated vocabulary whose only word has two bytes above 127 (an e with an acute accent in UTF-8).\<close>

definition cafe_line :: string where
  "cafe_line = ''caf'' @ [CHR 0xC3, CHR 0xA9] @ newline"

definition cafe_globals :: globals_t where
  "cafe_globals = \<lparr>baseVocabLines = [apple_line, banana_line], emuVocabLines = [cafe_line]\<rparr>"

text \<open>
  Base vocabularies of one malformed line: one without the rank field, one whose
  document frequency starts with a letter. The first comes with an emulated vocabulary
  of 1818 lines, the last of them \<^verbatim>\<open>yak\<close>.
\<close>

definition norank_line :: string where
  "norank_line = ''apple'' @ tab @ ''10'' @ tab @ ''5'' @ newline"

definition norank_globals :: globals_t where
  "norank_globals = \<lparr>baseVocabLines = [norank_line], emuVocabLines = replicate 1817 zeta_line @ [yak_line]\<rparr>"

definition badfield_line :: string where
  "badfield_line = ''apple'' @ tab @ ''10'' @ tab @ ''x5'' @ tab @ ''2'' @ newline"

definition badfield_globals :: globals_t where
  "badfield_globals = \<lparr>baseVocabLines = [badfield_line], emuVocabLines = [zeta_line, yak_line]\<rparr>"

text \<open>A base vocabulary of one line, with the rank 3, over the emulated vocabulary of two lines.\<close>

definition cherry_line :: string where
  "cherry_line = ''cherry'' @ tab @ ''7'' @ tab @ ''3'' @ tab @ ''3'' @ newline"

definition cherry_globals :: globals_t where
  "cherry_globals = \<lparr>baseVocabLines = [cherry_line], emuVocabLines = [zeta_line, yak_line]\<rparr>"

section \<open>Properties of the word comparison\<close>

lemma peek_simps [simp]: "peek [] = CHR 0x00" "peek (c # s) = c"
  by (simp_all add: peek_def)

lemma u_char_nul [simp]: "u_char (CHR 0x00) = 0"
  by (simp add: u_char_def)

lemma u_char_inj: "u_char a = u_char b \<Longrightarrow> a = b"
  by (simp add: u_char_def)

lemma word_split: "p = word_of p @ after_word p"
  by (simp add: word_of_def after_word_def)

lemma peek_after_word: "u_char (peek (after_word p)) \<le> 32"
  unfolding after_word_def by (induction p) auto

lemma word_of_all_gt: "c \<in> set (word_of p) \<Longrightarrow> u_char c > 32"
  unfolding word_of_def by (auto dest: set_takeWhileD)

lemma vocabCmp_common:
  "\<forall>c \<in> set p. u_char c > 32 \<Longrightarrow> vocabCmp (p @ i) (p @ j) = vocabCmp i j"
  by (induction p) (simp_all add: vocabCmp.simps [of "_ # _"])

lemma vocabCmp_ends:
  "u_char (peek i) \<le> 32 \<Longrightarrow> u_char (peek j) \<le> 32 \<Longrightarrow> vocabCmp i j = 0"
  by (simp add: vocabCmp.simps)

lemma vocabCmp_left_ends:
  "u_char (peek i) \<le> 32 \<Longrightarrow> u_char (peek j) > 32 \<Longrightarrow> vocabCmp i j = - 1"
  by (simp add: vocabCmp.simps)

lemma vocabCmp_right_ends:
  "u_char (peek i) > 32 \<Longrightarrow> u_char (peek j) \<le> 32 \<Longrightarrow> vocabCmp i j = 1"
  by (simp add: vocabCmp.simps)

lemma vocabCmp_differ:
  "u_char a > 32 \<Longrightarrow> u_char b > 32 \<Longrightarrow> a \<noteq> b \<Longrightarrow>
   vocabCmp (a # i) (b # j) = (if u_char a < u_char b then - 1 else 1)"
  by (simp add: vocabCmp.simps)

lemma vocabCmp_prefix_lt:
  assumes "strict_prefix (word_of i) (word_of j)"
  shows "vocabCmp i j = - 1"
proof -
  from assms obtain b v where wj: "word_of j = word_of i @ b # v"
    by (auto simp: strict_prefix_def prefix_def neq_Nil_conv)
  have b: "u_char b > 32"
    using word_of_all_gt [of b j] wj by simp
  have "vocabCmp i j = vocabCmp (word_of i @ after_word i) (word_of i @ (b # v @ after_word j))"
    using word_split [of i] word_split [of j] wj by simp
  also have "\<dots> = vocabCmp (after_word i) (b # v @ after_word j)"
    by (rule vocabCmp_common) (auto dest: word_of_all_gt)
  also have "\<dots> = - 1"
    using peek_after_word [of i] b by (simp add: vocabCmp_left_ends)
  finally show ?thesis .
qed

lemma vocabCmp_prefix_gt:
  assumes "strict_prefix (word_of j) (word_of i)"
  shows "vocabCmp i j = 1"
proof -
  from assms obtain b v where wi: "word_of i = word_of j @ b # v"
    by (auto simp: strict_prefix_def prefix_def neq_Nil_conv)
  have b: "u_char b > 32"
    using word_of_all_gt [of b i] wi by simp
  have "vocabCmp i j = vocabCmp (word_of j @ (b # v @ after_word i)) (word_of j @ after_word j)"
    using word_split [of i] word_split [of j] wi by simp
  also have "\<dots> = vocabCmp (b # v @ after_word i) (after_word j)"
    by (rule vocabCmp_common) (auto dest: word_of_all_gt)
  also have "\<dots> = 1"
    using peek_after_word [of j] b by (simp add: vocabCmp_right_ends)
  finally show ?thesis .
qed

lemma vocabCmp_first_diff:
  assumes wi: "word_of i = p @ a # u" and wj: "word_of j = p @ b # v" and ab: "a \<noteq> b"
  shows "vocabCmp i j = (if u_char a < u_char b then - 1 else 1)"
proof -
  have a: "u_char a > 32" using word_of_all_gt [of a i] wi by simp
  have b: "u_char b > 32" using word_of_all_gt [of b j] wj by simp
  have p: "\<forall>c \<in> set p. u_char c > 32" using word_of_all_gt [of _ i] wi by simp
  have "vocabCmp i j = vocabCmp (p @ (a # u @ after_word i)) (p @ (b # v @ after_word j))"
    using word_split [of i] word_split [of j] wi wj by simp
  also have "\<dots> = vocabCmp (a # u @ after_word i) (b # v @ after_word j)"
    by (rule vocabCmp_common [OF p])
  also have "\<dots> = (if u_char a < u_char b then - 1 else 1)"
    by (rule vocabCmp_differ [OF a b ab])
  finally show ?thesis .
qed

lemma vocabCmp_same_word:
  assumes "word_of i = word_of j"
  shows "vocabCmp i j = 0"
proof -
  have "vocabCmp i j = vocabCmp (word_of i @ after_word i) (word_of i @ after_word j)"
    using word_split [of i] word_split [of j] assms by simp
  also have "\<dots> = vocabCmp (after_word i) (after_word j)"
    by (rule vocabCmp_common) (auto dest: word_of_all_gt)
  also have "\<dots> = 0"
    by (simp add: vocabCmp_ends peek_after_word)
  finally show ?thesis .
qed

text \<open>Two byte strings are equal, or one starts the other, or they part at some byte.\<close>

lemma words_trichotomy:
  "u = v \<or> strict_prefix u v \<or> strict_prefix v u \<or>
   (\<exists>p a b u' v'. u = p @ a # u' \<and> v = p @ b # v' \<and> a \<noteq> b)"
proof (induction u arbitrary: v)
  case Nil
  then show ?case by (cases v) auto
next
  case (Cons x u)
  show ?case
  proof (cases v)
    case Nil
    then show ?thesis by auto
  next
    case (Cons y v')
    show ?thesis
    proof (cases "x = y")
      case False
      then have "x # u = [] @ x # u \<and> v = [] @ y # v' \<and> x \<noteq> y" using Cons by simp
      then show ?thesis by blast
    next
      case True
      from Cons.IH [of v'] show ?thesis
      proof (elim disjE exE conjE)
        fix p a b u' w'
        assume "u = p @ a # u'" "v' = p @ b # w'" "a \<noteq> b"
        then have "x # u = (x # p) @ a # u' \<and> v = (x # p) @ b # w' \<and> a \<noteq> b"
          using True Cons by simp
        then show ?thesis by blast
      qed (use True Cons in auto)
    qed
  qed
qed

lemma vocabCmp_zero_iff: "vocabCmp i j = 0 \<longleftrightarrow> word_of i = word_of j"
proof
  assume z: "vocabCmp i j = 0"
  from words_trichotomy [of "word_of i" "word_of j"] show "word_of i = word_of j"
  proof (elim disjE exE conjE)
    assume "strict_prefix (word_of i) (word_of j)"
    from vocabCmp_prefix_lt [OF this] z show ?thesis by simp
  next
    assume "strict_prefix (word_of j) (word_of i)"
    from vocabCmp_prefix_gt [OF this] z show ?thesis by simp
  next
    fix p a b u' v'
    assume "word_of i = p @ a # u'" "word_of j = p @ b # v'" "a \<noteq> b"
    from vocabCmp_first_diff [OF this] z show ?thesis by (simp split: if_splits)
  qed
qed (rule vocabCmp_same_word)

text \<open>
  Claim C4. \<^verbatim>\<open>vocabCmp\<close> returns 0 exactly when the two strings hold the same bytes
  before the first byte that is at most a space in each. When the word of one string is
  a proper start of the word of the other, the shorter one is the smaller (\<open>- 1\<close> when it
  is the first argument, \<open>1\<close> when it is the second), so a word never equals a longer word
  that it starts. When the words part at a byte, the unsigned values of the two bytes
  decide.
\<close>

theorem vocabCmp_rule:
  "(vocabCmp i j = 0 \<longleftrightarrow> word_of i = word_of j) \<and>
   (strict_prefix (word_of i) (word_of j) \<longrightarrow> vocabCmp i j = - 1) \<and>
   (strict_prefix (word_of j) (word_of i) \<longrightarrow> vocabCmp i j = 1) \<and>
   (\<forall>p a b u v. word_of i = p @ a # u \<and> word_of j = p @ b # v \<and> a \<noteq> b \<longrightarrow>
      vocabCmp i j = (if u_char a < u_char b then - 1 else 1))"
  using vocabCmp_zero_iff vocabCmp_prefix_lt vocabCmp_prefix_gt vocabCmp_first_diff
  by blast

theorem vocabCmp_rule_witness:
  "strict_prefix (word_of ''app'') (word_of (''apple'' @ [CHR 0x09] @ ''10'')) \<and>
   vocabCmp ''app'' (''apple'' @ [CHR 0x09] @ ''10'') = - 1 \<and>
   strict_prefix (word_of (''apple'' @ [CHR 0x09] @ ''10'')) (word_of ''apples'') \<and>
   vocabCmp ''apples'' (''apple'' @ [CHR 0x09] @ ''10'') = 1 \<and>
   word_of ''apple'' = word_of (''apple'' @ [CHR 0x09] @ ''10'') \<and>
   vocabCmp ''apple'' (''apple'' @ [CHR 0x09] @ ''10'') = 0 \<and>
   word_of ''apric'' = ''ap'' @ CHR ''r'' # ''ic'' \<and>
   word_of (''apple'' @ [CHR 0x09] @ ''10'') = ''ap'' @ CHR ''p'' # ''le'' \<and>
   vocabCmp ''apric'' (''apple'' @ [CHR 0x09] @ ''10'') = 1"
proof -
  have w1: "word_of ''app'' = ''app''" and w2: "word_of (''apple'' @ [CHR 0x09] @ ''10'') = ''apple''"
    and w3: "word_of ''apples'' = ''apples''" and w4: "word_of ''apple'' = ''apple''"
    and w5: "word_of ''apric'' = ''apric''"
    by (simp_all add: word_of_def u_char_def)
  have p1: "strict_prefix (word_of ''app'') (word_of (''apple'' @ [CHR 0x09] @ ''10''))"
    and p2: "strict_prefix (word_of (''apple'' @ [CHR 0x09] @ ''10'')) (word_of ''apples'')"
    unfolding w1 w2 w3 by simp_all
  have d: "word_of ''apric'' = ''ap'' @ CHR ''r'' # ''ic'' \<and>
      word_of (''apple'' @ [CHR 0x09] @ ''10'') = ''ap'' @ CHR ''p'' # ''le'' \<and> CHR ''r'' \<noteq> CHR ''p''"
    unfolding w2 w5 by simp
  have e: "word_of ''apple'' = word_of (''apple'' @ [CHR 0x09] @ ''10'')"
    unfolding w2 w4 by simp
  from vocabCmp_rule [of "''app''" "''apple'' @ [CHR 0x09] @ ''10''"] p1
  have r1: "vocabCmp ''app'' (''apple'' @ [CHR 0x09] @ ''10'') = - 1" by blast
  from vocabCmp_rule [of "''apples''" "''apple'' @ [CHR 0x09] @ ''10''"] p2
  have r2: "vocabCmp ''apples'' (''apple'' @ [CHR 0x09] @ ''10'') = 1" by blast
  from vocabCmp_rule [of "''apple''" "''apple'' @ [CHR 0x09] @ ''10''"] e
  have r3: "vocabCmp ''apple'' (''apple'' @ [CHR 0x09] @ ''10'') = 0" by blast
  from vocabCmp_rule [of "''apric''" "''apple'' @ [CHR 0x09] @ ''10''"] d
  have "vocabCmp ''apric'' (''apple'' @ [CHR 0x09] @ ''10'') =
      (if u_char CHR ''r'' < u_char CHR ''p'' then - 1 else 1)" by blast
  then have r4: "vocabCmp ''apric'' (''apple'' @ [CHR 0x09] @ ''10'') = 1"
    by (simp add: u_char_def)
  from p1 p2 e d r1 r2 r3 r4 show ?thesis by blast
qed

lemma vocabCmp_cong:
  assumes "word_of i = word_of i'" and "word_of j = word_of j'"
  shows "vocabCmp i j = vocabCmp i' j'"
proof -
  from words_trichotomy [of "word_of i" "word_of j"] show ?thesis
  proof (elim disjE exE conjE)
    assume e: "word_of i = word_of j"
    then show ?thesis using assms by (simp add: vocabCmp_same_word)
  next
    assume p: "strict_prefix (word_of i) (word_of j)"
    then show ?thesis using assms by (simp add: vocabCmp_prefix_lt)
  next
    assume p: "strict_prefix (word_of j) (word_of i)"
    then show ?thesis using assms by (simp add: vocabCmp_prefix_gt)
  next
    fix p a b u' v'
    assume d: "word_of i = p @ a # u'" "word_of j = p @ b # v'" "a \<noteq> b"
    then have "word_of i' = p @ a # u'" "word_of j' = p @ b # v'" using assms by simp_all
    from vocabCmp_first_diff [OF d] vocabCmp_first_diff [OF this d(3)] show ?thesis by simp
  qed
qed

lemma vocabCmp_flip: "vocabCmp j i = - vocabCmp i j"
proof -
  from words_trichotomy [of "word_of i" "word_of j"] show ?thesis
  proof (elim disjE exE conjE)
    assume e: "word_of i = word_of j"
    then show ?thesis by (simp add: vocabCmp_same_word)
  next
    assume p: "strict_prefix (word_of i) (word_of j)"
    then show ?thesis by (simp add: vocabCmp_prefix_lt vocabCmp_prefix_gt)
  next
    assume p: "strict_prefix (word_of j) (word_of i)"
    then show ?thesis by (simp add: vocabCmp_prefix_lt vocabCmp_prefix_gt)
  next
    fix p a b u' v'
    assume d: "word_of i = p @ a # u'" "word_of j = p @ b # v'" "a \<noteq> b"
    have "u_char a \<noteq> u_char b" using d(3) u_char_inj by blast
    with vocabCmp_first_diff [OF d] vocabCmp_first_diff [OF d(2) d(1)] d(3)
    show ?thesis by auto
  qed
qed

section \<open>Properties of the binary search\<close>

lemma bsearch_hit:
  "fst (bsearch key base l u) = Some k \<Longrightarrow> l \<le> k \<and> k < u \<and> vocabCmp key (base ! k) = 0"
proof (induction key base l u rule: bsearch.induct)
  case (1 key base l u)
  show ?case
  proof (cases "l < u")
    case False
    with "1.prems" show ?thesis by (simp add: bsearch.simps [of key base l u])
  next
    case True
    let ?idx = "(l + u) div 2"
    let ?c = "vocabCmp key (base ! ?idx)"
    consider "?c < 0" | "?c > 0" | "?c = 0" by linarith
    then show ?thesis
    proof cases
      case 1
      with True "1.prems" have "fst (bsearch key base l ?idx) = Some k"
        by (simp add: bsearch.simps [of key base l u] tick_def Let_def)
      from "1.IH"(1) [OF True refl refl 1 this] True show ?thesis by auto
    next
      case 2
      with True "1.prems" have "fst (bsearch key base (?idx + 1) u) = Some k"
        by (simp add: bsearch.simps [of key base l u] tick_def Let_def)
      from "1.IH"(2) [OF True refl refl _ 2 this] 2 True show ?thesis by auto
    next
      case 3
      with True "1.prems" have "k = ?idx"
        by (simp add: bsearch.simps [of key base l u] Let_def)
      with 3 True show ?thesis by auto
    qed
  qed
qed

lemma bsearch_absent:
  assumes "word_of key \<notin> set (map word_of base)" and "u \<le> length base"
  shows "fst (bsearch key base l u) = None"
proof (rule ccontr)
  assume "fst (bsearch key base l u) \<noteq> None"
  then obtain k where "fst (bsearch key base l u) = Some k" by auto
  from bsearch_hit [OF this] have "k < u" and "word_of key = word_of (base ! k)"
    by (simp_all add: vocabCmp_zero_iff)
  with assms show False by (metis (no_types, lifting) image_eqI less_le_trans nth_mem set_map)
qed

lemma bsearch_count_pow: "u - l < 2 ^ n \<Longrightarrow> snd (bsearch key base l u) \<le> n"
proof (induction n arbitrary: l u)
  case 0
  then show ?case by (simp add: bsearch.simps [of key base l u])
next
  case (Suc n)
  show ?case
  proof (cases "l < u")
    case False
    then show ?thesis by (simp add: bsearch.simps [of key base l u])
  next
    case True
    let ?idx = "(l + u) div 2"
    have "?idx - l < 2 ^ n" "u - (?idx + 1) < 2 ^ n"
      using Suc.prems True by auto
    then have "snd (bsearch key base l ?idx) \<le> n" "snd (bsearch key base (?idx + 1) u) \<le> n"
      by (auto intro: Suc.IH)
    then show ?thesis
      using True by (simp add: bsearch.simps [of key base l u] tick_def Let_def)
  qed
qed

lemma bsearch_count: "snd (bsearch key base 0 n) \<le> ceillog2 n + 1"
proof -
  have "n \<le> 2 ^ ceillog2 n" by (rule le_two_power_ceillog2)
  moreover have "(2::nat) ^ ceillog2 n < 2 ^ (ceillog2 n + 1)" by simp
  ultimately have "n - 0 < 2 ^ (ceillog2 n + 1)" by linarith
  then show ?thesis by (rule bsearch_count_pow)
qed

lemma bsearch_finds:
  "sorted_wrt (\<lambda>a b. vocabCmp a b < 0) base \<Longrightarrow> u \<le> length base \<Longrightarrow> l \<le> k \<Longrightarrow> k < u \<Longrightarrow> word_of key = word_of (base ! k) \<Longrightarrow>
    fst (bsearch key base l u) = Some k"
proof (induction key base l u rule: bsearch.induct)
  case (1 key base l u)
  note srt' = "1.prems"(1)
  have lu: "l < u" using "1.prems" by simp
  let ?idx = "(l + u) div 2"
  let ?c = "vocabCmp key (base ! ?idx)"
  have idx: "?idx < length base" using "1.prems" by auto
  have kk: "k < length base" using "1.prems" by auto
  consider "?idx = k" | "?idx < k" | "k < ?idx" by linarith
  then show ?case
  proof cases
    case 1
    then have "?c = 0" using "1.prems" by (simp add: vocabCmp_zero_iff)
    then show ?thesis using lu 1 by (simp add: bsearch.simps [of key base l u] Let_def)
  next
    case 2
    have "vocabCmp (base ! ?idx) (base ! k) < 0"
      using sorted_wrt_nth_less [OF srt' 2 kk] .
    then have "vocabCmp (base ! ?idx) key < 0"
      using vocabCmp_cong [of "base ! ?idx" "base ! ?idx" key "base ! k"] "1.prems" by simp
    then have c: "?c > 0" using vocabCmp_flip [of "base ! ?idx" key] by simp
    have "fst (bsearch key base (?idx + 1) u) = Some k"
      using "1.IH"(2) [OF lu refl refl _ c] c 2 "1.prems" by simp
    then show ?thesis using lu c by (simp add: bsearch.simps [of key base l u] tick_def Let_def)
  next
    case 3
    have "vocabCmp (base ! k) (base ! ?idx) < 0"
      using sorted_wrt_nth_less [OF srt' 3 idx] .
    then have c: "?c < 0"
      using vocabCmp_cong [of key "base ! k" "base ! ?idx" "base ! ?idx"] "1.prems" by simp
    have "fst (bsearch key base l ?idx) = Some k"
      using "1.IH"(1) [OF lu refl refl c] 3 "1.prems" idx by simp
    then show ?thesis using lu c by (simp add: bsearch.simps [of key base l u] tick_def Let_def)
  qed
qed

lemmas example_lines =
  example_globals_def apple_line_def banana_line_def zeta_line_def yak_line_def tab_def newline_def
  const_env_def cafe_line_def cafe_globals_def norank_line_def badfield_line_def
  cherry_line_def cherry_globals_def

text \<open>
  Claim C7. A lookup makes at most \<open>ceillog2 N + 1\<close> comparisons in a base vocabulary of
  \<open>N\<close> lines, and it returns \<open>- 1\<close> (not found) for every probe whose word is the word
  of no line, a probe that is a proper start or a proper extension of a line's word
  included. Neither part needs the vocabulary to be sorted.
\<close>

theorem lookup_not_found:
  "snd (bsearch inWord (baseVocabLines globals) 0 (length (baseVocabLines globals)))
     \<le> ceillog2 (length (baseVocabLines globals)) + 1 \<and>
   (word_of inWord \<notin> set (map word_of (baseVocabLines globals)) \<longrightarrow>
      getRankInBase globals inWord = Inr (- 1))"
proof (intro conjI impI)
  show "snd (bsearch inWord (baseVocabLines globals) 0 (length (baseVocabLines globals)))
      \<le> ceillog2 (length (baseVocabLines globals)) + 1"
    by (rule bsearch_count)
next
  assume "word_of inWord \<notin> set (map word_of (baseVocabLines globals))"
  then have "fst (bsearch inWord (baseVocabLines globals) 0 (length (baseVocabLines globals))) = None"
    by (rule bsearch_absent) simp
  then show "getRankInBase globals inWord = Inr (- 1)"
    by (simp add: getRankInBase_def)
qed

theorem lookup_not_found_witness:
  "word_of ''app'' \<notin> set (map word_of (baseVocabLines example_globals)) \<and>
   getRankInBase example_globals ''app'' = Inr (- 1) \<and>
   word_of ''apples'' \<notin> set (map word_of (baseVocabLines example_globals)) \<and>
   getRankInBase example_globals ''apples'' = Inr (- 1) \<and>
   snd (bsearch ''apples'' (baseVocabLines example_globals) 0 (length (baseVocabLines example_globals)))
     \<le> ceillog2 (length (baseVocabLines example_globals)) + 1"
proof -
  have a: "word_of ''app'' \<notin> set (map word_of (baseVocabLines example_globals))"
    and b: "word_of ''apples'' \<notin> set (map word_of (baseVocabLines example_globals))"
    by (simp_all add: example_lines word_of_def u_char_def)
  from a b lookup_not_found [of "''app''" example_globals]
    lookup_not_found [of "''apples''" example_globals]
  show ?thesis by blast
qed

section \<open>Properties of getRankInBase\<close>

lemma decimal_nonneg: "list_all isdigit ds \<Longrightarrow> 0 \<le> decimal ds"
proof -
  have "list_all isdigit ds \<Longrightarrow> 0 \<le> a \<Longrightarrow> 0 \<le> foldl (\<lambda>a c. 10 * a + (u_char c - 48)) a ds" for a
    by (induction ds arbitrary: a) (auto simp: isdigit_def)
  then show "list_all isdigit ds \<Longrightarrow> 0 \<le> decimal ds"
    by (simp add: decimal_def)
qed

lemma strtod_digits:
  assumes "ds \<noteq> []" and "list_all isdigit ds" and "\<not> isdigit (peek rest)"
    and "peek rest \<notin> set ''.eExX''"
  shows "strtod (ds @ rest) = Some (decimal ds, rest)"
proof -
  obtain d ds' where ds: "ds = d # ds'" using assms(1) by (cases ds) auto
  have d: "isdigit d" using assms(2) ds by simp
  then have nsp: "\<not> isspace d" and nm: "d \<noteq> CHR ''-''" and np: "d \<noteq> CHR ''+''"
    by (auto simp: isdigit_def isspace_def u_char_def)
  have s: "dropWhile isspace (ds @ rest) = ds @ rest"
    using nsp ds by simp
  have rest: "takeWhile isdigit rest = []" "dropWhile isdigit rest = rest"
    using assms(3) by (cases rest; simp)+
  have tk: "takeWhile isdigit (ds @ rest) = ds" "dropWhile isdigit (ds @ rest) = rest"
    using assms(2) rest by (simp_all add: list_all_iff)
  have pk: "peek (ds @ rest) = d" using ds by simp
  show ?thesis
    unfolding strtod_def s Let_def pk using nm np tk assms(1,4) by simp
qed

lemma peek_tab: "peek (tab @ p) = CHR 0x09" "tl (tab @ p) = p"
  by (simp_all add: tab_def)

lemma tab_not_digit: "\<not> isdigit (peek (tab @ p))" "peek (tab @ p) \<notin> set ''.eExX''"
  by (simp_all add: tab_def isdigit_def u_char_def)

lemma line_end_facts:
  assumes "line_end rest"
  shows "\<not> isdigit (peek rest)" "peek rest \<notin> set ''.eExX''" "peek rest \<noteq> CHR 0x09"
    "\<not> (peek rest \<noteq> CHR 0x00 \<and> peek rest \<noteq> CHR 0x0D \<and> peek rest \<noteq> CHR 0x0A)"
  using assms by (auto simp: line_end_def isdigit_def u_char_def)

lemma number_range: "number ds \<Longrightarrow> \<not> (decimal ds < - (2 ^ 31) \<or> 2 ^ 31 \<le> decimal ds)"
  using decimal_nonneg [of ds] by (auto simp: number_def)

lemma fields_loop_wellformed:
  assumes "number occ" "number df" "number rk" "line_end rest"
  shows "fields_loop 2 (occ @ tab @ df @ tab @ rk @ rest) r0 = Inr (decimal rk)"
proof -
  have s1: "strtod (occ @ tab @ df @ tab @ rk @ rest) = Some (decimal occ, tab @ df @ tab @ rk @ rest)"
    using assms(1) by (intro strtod_digits tab_not_digit) (simp_all add: number_def)
  have s2: "strtod (df @ tab @ rk @ rest) = Some (decimal df, tab @ rk @ rest)"
    using assms(2) by (intro strtod_digits tab_not_digit) (simp_all add: number_def)
  have s3: "strtod (rk @ rest) = Some (decimal rk, rest)"
    using assms(3) line_end_facts [OF assms(4)] by (intro strtod_digits) (simp_all add: number_def)
  have f5: "fields_loop 5 p (decimal rk) = Inr (decimal rk)" for p
    by (simp add: fields_loop.simps [of 5])
  have f4: "fields_loop 4 (rk @ rest) v = Inr (decimal rk)" for v
    using s3 number_range [OF assms(3)] line_end_facts [OF assms(4)] f5
    by (auto simp: fields_loop.simps [of 4])
  have f3: "fields_loop 3 (df @ tab @ rk @ rest) v = Inr (decimal rk)" for v
    using s2 number_range [OF assms(2)] f4
    by (simp add: fields_loop.simps [of 3] peek_tab)
  show ?thesis
    using s1 number_range [OF assms(1)] f3
    by (simp add: fields_loop.simps [of 2] peek_tab)
qed

lemma word_of_vocab_line:
  assumes "list_all (\<lambda>c. u_char c > 32) w"
  shows "word_of (vocab_line w occ df rk rest) = w"
    and "tl (after_word (vocab_line w occ df rk rest)) = occ @ tab @ df @ tab @ rk @ rest"
  using assms
  by (simp_all add: word_of_def after_word_def vocab_line_def tab_def list_all_iff u_char_def)

lemma getRankInBase_wellformed:
  assumes "sorted_wrt (\<lambda>a b. vocabCmp a b < 0) (baseVocabLines globals)"
    and "k < length (baseVocabLines globals)"
    and "baseVocabLines globals ! k = vocab_line w occ df rk rest"
    and "list_all (\<lambda>c. u_char c > 32) w"
    and "number occ" "number df" "number rk" "line_end rest"
    and "word_of inWord = w"
  shows "getRankInBase globals inWord = Inr (decimal rk)"
proof -
  have "word_of inWord = word_of (baseVocabLines globals ! k)"
    using assms(3,4,9) by (simp add: word_of_vocab_line)
  with assms(1,2)
  have "fst (bsearch inWord (baseVocabLines globals) 0 (length (baseVocabLines globals))) = Some k"
    by (intro bsearch_finds) simp_all
  then show ?thesis
    using assms by (simp add: getRankInBase_def word_of_vocab_line fields_loop_wellformed)
qed

lemma resolve_found:
  assumes "getRankInBase globals inWord = Inr rank"
    and "1 \<le> rank" and "rank \<le> int (length (emuVocabLines globals))" and "rank < 2 ^ 31"
    and "\<not> obfuscate params"
  shows "resolve env globals params inWord st = Inr (emuVocabLines globals ! (nat rank - 1), st)"
proof -
  have "nat (rank - 1) = nat rank - 1" by simp
  then show ?thesis
    using assms by (simp add: resolve_def choose_word_def line_at_def)
qed

text \<open>
  The choice of the line: for a query word whose line in a sorted base vocabulary is well
  formed and records the rank \<open>r\<close>, with \<open>1 \<le> r\<close> and \<open>r\<close> at most the number of
  lines of the emulated vocabulary, and without obfuscation, the output loop is started
  at line \<open>r - 1\<close> of the emulated vocabulary, no draw is taken and the counter of the
  placeholders stays.
\<close>

lemma resolve_in_range:
  assumes "sorted_wrt (\<lambda>a b. vocabCmp a b < 0) (baseVocabLines globals)"
    and "k < length (baseVocabLines globals)"
    and "baseVocabLines globals ! k = vocab_line w occ df rk rest"
    and "list_all (\<lambda>c. u_char c > 32) w"
    and "number occ" "number df" "number rk" "line_end rest"
    and "word_of inWord = w"
    and "1 \<le> decimal rk" and "decimal rk \<le> int (length (emuVocabLines globals))"
    and "\<not> obfuscate params"
  shows "resolve env globals params inWord st
    = Inr (emuVocabLines globals ! (nat (decimal rk) - 1), st)"
proof -
  have "getRankInBase globals inWord = Inr (decimal rk)"
    using assms(1-9) by (rule getRankInBase_wellformed)
  moreover have "decimal rk < 2 ^ 31" using assms(7) by (simp add: number_def)
  ultimately show ?thesis
    using assms(10-12) by (intro resolve_found) simp_all
qed

lemma example_sorted: "sorted_wrt (\<lambda>a b. vocabCmp a b < 0) (baseVocabLines example_globals)"
proof -
  have "vocabCmp apple_line banana_line < 0" by code_simp
  then show ?thesis by (simp add: example_globals_def)
qed

text \<open>
  The lemma at the line of \<^verbatim>\<open>apple\<close> in the example: whatever the environment, the
  state and \<^verbatim>\<open>preserveNoExists\<close> are, the line chosen is the second of the emulated
  vocabulary.
\<close>

lemma resolve_in_range_example:
  "resolve env example_globals \<lparr>obfuscate = False, preserveNoExists = pne\<rparr> ''apple'' st
   = Inr (yak_line, st)"
proof -
  have l: "baseVocabLines example_globals ! 0 = vocab_line ''apple'' ''10'' ''5'' ''2'' (newline @ banana_line)"
    by (simp add: example_globals_def apple_line_def vocab_line_def)
  have n: "number ''10''" "number ''5''" "number ''2''" and d: "decimal ''2'' = 2"
    by (simp_all add: number_def isdigit_def decimal_def u_char_def)
  have e: "line_end (newline @ banana_line)"
    by (simp add: line_end_def newline_def)
  have w: "list_all (\<lambda>c. u_char c > 32) ''apple''" "word_of ''apple'' = ''apple''"
    by (simp_all add: word_of_def u_char_def)
  have "resolve env example_globals \<lparr>obfuscate = False, preserveNoExists = pne\<rparr> ''apple'' st
    = Inr (emuVocabLines example_globals ! (nat (decimal ''2'') - 1), st)"
    by (rule resolve_in_range [OF example_sorted _ l w(1) n e w(2)])
      (simp_all add: d example_globals_def)
  then show ?thesis by (simp add: d example_globals_def)
qed

text \<open>What the output loop writes is the word at the pointer when plain \<^verbatim>\<open>char\<close> is
  unsigned, and when the word has no byte above 127.\<close>

lemma put_word_unsigned: "put_word False p = word_of p"
  by (simp add: put_word_def word_of_def plain_char_def)

lemma plain_char_le: "plain_char signed c \<le> u_char c"
  by (simp add: plain_char_def)

lemma plain_char_ascii: "u_char c < 128 \<Longrightarrow> plain_char signed c = u_char c"
  by (simp add: plain_char_def)

lemma put_word_ascii: "list_all (\<lambda>c. u_char c < 128) (word_of p) \<Longrightarrow> put_word signed p = word_of p"
  unfolding put_word_def word_of_def
proof (induction p)
  case Nil
  show ?case by simp
next
  case (Cons a p)
  show ?case
  proof (cases "32 < u_char a")
    case True
    with Cons.prems have "u_char a < 128" by simp
    then have "plain_char signed a = u_char a" by (rule plain_char_ascii)
    with True Cons show ?thesis by simp
  next
    case False
    with plain_char_le [of signed a] have "\<not> 32 < plain_char signed a" by linarith
    with False show ?thesis by simp
  qed
qed

text \<open>
  What is written for a word of the base vocabulary whose rank is in range: the word of
  the emulated line of the same rank, whole, when plain \<^verbatim>\<open>char\<close> is unsigned or every
  byte of that word is below 128.
\<close>

lemma emitted_in_range:
  assumes "sorted_wrt (\<lambda>a b. vocabCmp a b < 0) (baseVocabLines globals)"
    and "k < length (baseVocabLines globals)"
    and "baseVocabLines globals ! k = vocab_line w occ df rk rest"
    and "list_all (\<lambda>c. u_char c > 32) w"
    and "number occ" "number df" "number rk" "line_end rest"
    and "word_of inWord = w"
    and "1 \<le> decimal rk" and "decimal rk \<le> int (length (emuVocabLines globals))"
    and "\<not> obfuscate params"
    and "\<not> char_signed env \<or>
      list_all (\<lambda>c. u_char c < 128) (word_of (emuVocabLines globals ! (nat (decimal rk) - 1)))"
  shows "word_loop env globals params q [inWord] st =
    Inr (st\<lparr>queryOutfile := queryOutfile st @ (if q > 0 then '' '' else [])
                @ word_of (emuVocabLines globals ! (nat (decimal rk) - 1)),
            trace := trace st @ [(inWord, word_of (emuVocabLines globals ! (nat (decimal rk) - 1)))]\<rparr>)"
proof -
  have "put_word (char_signed env) (emuVocabLines globals ! (nat (decimal rk) - 1))
      = word_of (emuVocabLines globals ! (nat (decimal rk) - 1))"
    using assms(13) put_word_unsigned put_word_ascii by (cases "char_signed env") auto
  then show ?thesis
    by (simp add: resolve_in_range [OF assms(1-12)])
qed

text \<open>
  Claim C1, at an emulated word with a byte above 127 on a platform whose plain
  \<^verbatim>\<open>char\<close> is signed: the query word \<^verbatim>\<open>banana\<close> has rank 1 in the base vocabulary,
  the emulated vocabulary has one line, and obfuscation is off. The word stored at index 0
  has five bytes; the program writes the first three of them, since the output loop
  reads the bytes through \<^verbatim>\<open>char *p\<close> and stops at the first byte above 127. Where
  plain \<^verbatim>\<open>char\<close> is unsigned the same run writes the five bytes.
\<close>

theorem emitted_word_cut_at_high_byte:
  "getRankInBase cafe_globals ''banana'' = Inr 1 \<and>
   word_of (emuVocabLines cafe_globals ! 0) = ''caf'' @ [CHR 0xC3, CHR 0xA9] \<and>
   main (const_env 0 True) cafe_globals \<lparr>obfuscate = False, preserveNoExists = False\<rparr>
     (''banana'' @ newline)
   = Inr \<lparr>noexistNum = 0, rand_calls = 0, queryOutfile = ''caf'' @ newline,
          trace = [(''banana'', ''caf'')]\<rparr> \<and>
   main (const_env 0 False) cafe_globals \<lparr>obfuscate = False, preserveNoExists = False\<rparr>
     (''banana'' @ newline)
   = Inr \<lparr>noexistNum = 0, rand_calls = 0,
          queryOutfile = ''caf'' @ [CHR 0xC3, CHR 0xA9] @ newline,
          trace = [(''banana'', ''caf'' @ [CHR 0xC3, CHR 0xA9])]\<rparr>"
  by code_simp

section \<open>Malformed lines of the base vocabulary\<close>

lemma norank_rank: "getRankInBase norank_globals ''apple'' = Inr 1818"
proof -
  have e: "baseVocabLines norank_globals = [norank_line]"
    by (simp add: norank_globals_def)
  have c: "(case fst (bsearch ''apple'' [norank_line] 0 (length [norank_line])) of
      None \<Rightarrow> Inr (- 1)
    | Some k \<Rightarrow> fields_loop 2 (tl (after_word ([norank_line] ! k))) 0) = Inr 1818"
    by code_simp
  show ?thesis unfolding getRankInBase_def e by (rule c)
qed

text \<open>
  Claim C2, at a line without the rank field and at a line with a field that is no
  number. \<^verbatim>\<open>getRankInBase\<close> returns 1818 for the first and 2929 for the second, and
  \<^verbatim>\<open>main\<close> goes on with the value as a rank: for the first line it starts the output loop
  at line 1817 of the emulated vocabulary, for the second it finds 2928 too high for an
  emulated vocabulary of two lines, draws a substitute and ends the run with the output
  line written.
\<close>

theorem malformed_line_taken_as_rank:
  "getRankInBase norank_globals ''apple'' = Inr 1818 \<and>
   resolve (const_env 0 False) norank_globals \<lparr>obfuscate = False, preserveNoExists = False\<rparr>
     ''apple'' start = Inr (yak_line, start) \<and>
   emuVocabLines norank_globals ! 1817 = yak_line \<and>
   getRankInBase badfield_globals ''apple'' = Inr 2929 \<and>
   main (const_env 0 False) badfield_globals \<lparr>obfuscate = False, preserveNoExists = False\<rparr>
     (''apple'' @ newline)
   = Inr \<lparr>noexistNum = 0, rand_calls = 1, queryOutfile = ''zeta'' @ newline,
          trace = [(''apple'', ''zeta'')]\<rparr>"
proof -
  have e: "emuVocabLines norank_globals ! 1817 = yak_line"
    by (simp add: norank_globals_def nth_append)
  have "resolve (const_env 0 False) norank_globals \<lparr>obfuscate = False, preserveNoExists = False\<rparr>
     ''apple'' start = Inr (emuVocabLines norank_globals ! (nat 1818 - 1), start)"
    by (rule resolve_found [OF norank_rank]) (simp_all add: norank_globals_def)
  then have r: "resolve (const_env 0 False) norank_globals \<lparr>obfuscate = False, preserveNoExists = False\<rparr>
     ''apple'' start = Inr (yak_line, start)"
    using e by simp
  have b: "getRankInBase badfield_globals ''apple'' = Inr 2929"
    by code_simp
  have m: "main (const_env 0 False) badfield_globals \<lparr>obfuscate = False, preserveNoExists = False\<rparr>
     (''apple'' @ newline)
   = Inr \<lparr>noexistNum = 0, rand_calls = 1, queryOutfile = ''zeta'' @ newline,
          trace = [(''apple'', ''zeta'')]\<rparr>"
    by code_simp
  from norank_rank r e b m show ?thesis by blast
qed

section \<open>The rank jitter\<close>

lemma thresholds: "const_0_3333333 < const_0_6666667"
  by (simp add: const_0_3333333_def const_0_6666667_def)

lemma jitter_cases:
  "(jitter r rank0 = rank0 + 1 \<longleftrightarrow> r > const_0_6666667) \<and>
   (jitter r rank0 = rank0 - 1 \<longleftrightarrow> rank0 > 0 \<and> r < const_0_3333333) \<and>
   (jitter r rank0 = rank0 \<longleftrightarrow> \<not> r > const_0_6666667 \<and> \<not> (rank0 > 0 \<and> r < const_0_3333333)) \<and>
   (0 \<le> rank0 \<longrightarrow> 0 \<le> jitter r rank0)"
  using thresholds by (auto simp: jitter_def)

lemma resolve_obfuscate:
  "obfuscate params \<Longrightarrow> getRankInBase globals inWord = Inr rank \<Longrightarrow> 1 \<le> rank \<Longrightarrow>
   resolve env globals params inWord st =
     choose_word env globals params (jitter (rand_val env (rand_calls st)) (rank - 1))
       (st\<lparr>rand_calls := Suc (rand_calls st)\<rparr>)"
  by (simp add: resolve_def draw_def)

text \<open>
  Claim C3 as it is stated fails: the thresholds of the code are the constants
  \<^verbatim>\<open>0.6666667\<close> and \<^verbatim>\<open>0.3333333\<close>, not two thirds and one third. A draw between two
  thirds and \<^verbatim>\<open>0.6666667\<close> does not increment the rank, a draw between
  \<^verbatim>\<open>0.3333333\<close> and one third does not decrement it. Both draws below are binary64
  numbers in the unit interval.
\<close>

theorem jitter_thirds_counterexample:
  "(2 / 3 :: real) < 715827900 / 1073741824 \<and> (715827900 / 1073741824 :: real) < 1 \<and>
   binary64 (715827900 / 1073741824) \<and>
   jitter (715827900 / 1073741824) 5 = 5 \<and>
   (89478485 / 268435456 :: real) < 1 / 3 \<and> 0 \<le> (89478485 / 268435456 :: real) \<and>
   binary64 (89478485 / 268435456) \<and>
   jitter (89478485 / 268435456) 5 = 5"
proof -
  have "binary64 (715827900 / 1073741824) \<and> binary64 (89478485 / 268435456)"
    by code_simp
  moreover have "(2 / 3 :: real) < 715827900 / 1073741824 \<and> (715827900 / 1073741824 :: real) < 1 \<and>
   jitter (715827900 / 1073741824) 5 = 5 \<and>
   (89478485 / 268435456 :: real) < 1 / 3 \<and> 0 \<le> (89478485 / 268435456 :: real) \<and>
   jitter (89478485 / 268435456) 5 = 5"
    by (simp add: jitter_def const_0_3333333_def const_0_6666667_def)
  ultimately show ?thesis by blast
qed

text \<open>
  Claim C3, amended. When obfuscation is on and the query word was found with a rank of
  at least 1, exactly one draw \<open>r\<close> is taken before the word is chosen, and the rank
  passed on is \<open>jitter r rank0\<close>: it is \<open>rank0 + 1\<close> exactly when \<open>r\<close> is greater than
  the binary64 constant \<^verbatim>\<open>0.6666667\<close>, it is \<open>rank0 - 1\<close> exactly when \<open>rank0 > 0\<close> and
  \<open>r\<close> is less than the binary64 constant \<^verbatim>\<open>0.3333333\<close>, it is \<open>rank0\<close> otherwise, and
  it is never negative when \<open>rank0\<close> is not.
\<close>

theorem jitter_rule:
  "(jitter r rank0 = rank0 + 1 \<longleftrightarrow> r > const_0_6666667) \<and>
   (jitter r rank0 = rank0 - 1 \<longleftrightarrow> rank0 > 0 \<and> r < const_0_3333333) \<and>
   (jitter r rank0 = rank0 \<longleftrightarrow> \<not> r > const_0_6666667 \<and> \<not> (rank0 > 0 \<and> r < const_0_3333333)) \<and>
   (0 \<le> rank0 \<longrightarrow> 0 \<le> jitter r rank0) \<and>
   (obfuscate params \<and> getRankInBase globals inWord = Inr rank \<and> 1 \<le> rank \<longrightarrow>
      resolve env globals params inWord st =
        choose_word env globals params (jitter (rand_val env (rand_calls st)) (rank - 1))
          (st\<lparr>rand_calls := Suc (rand_calls st)\<rparr>))"
  using jitter_cases [of r rank0] resolve_obfuscate [of params globals inWord rank env st]
  by blast

theorem jitter_rule_witness:
  "obfuscate \<lparr>obfuscate = True, preserveNoExists = False\<rparr> \<and>
   getRankInBase example_globals ''banana'' = Inr 1 \<and> (1::int) \<le> 1 \<and> (0::int) \<le> 0 \<and>
   0 \<le> jitter 0 0 \<and> jitter 0 0 = 0 \<and>
   resolve (const_env 0 True) example_globals \<lparr>obfuscate = True, preserveNoExists = False\<rparr> ''banana'' start
     = choose_word (const_env 0 True) example_globals \<lparr>obfuscate = True, preserveNoExists = False\<rparr>
         (jitter (rand_val (const_env 0 True) (rand_calls start)) (1 - 1))
         (start\<lparr>rand_calls := Suc (rand_calls start)\<rparr>)"
proof -
  have g: "getRankInBase example_globals ''banana'' = Inr 1"
    by code_simp
  have j: "jitter 0 0 = 0"
    by (simp add: jitter_def const_0_6666667_def)
  from g j jitter_rule [of 0 0 "\<lparr>obfuscate = True, preserveNoExists = False\<rparr>" example_globals
      "''banana''" 1 "const_env 0 True" start]
  show ?thesis by simp
qed

section \<open>The loop that strips the end of the line\<close>








section \<open>Rounding to binary64 and the random index\<close>

lemma fl_lower:
  assumes "1 \<le> (x::real)"
  shows "2 ^ (floorlog 2 (nat \<lfloor>x\<rfloor>) - 1) \<le> x"
proof -
  let ?m = "nat \<lfloor>x\<rfloor>"
  have m: "0 < ?m" using assms by simp
  from floorlog_bounds [OF m, of 2] have "2 ^ (floorlog 2 ?m - 1) \<le> ?m" by simp
  then have "real (2 ^ (floorlog 2 ?m - 1)) \<le> real ?m" by (simp only: of_nat_le_iff)
  also have "real ?m \<le> x" using assms by simp
  finally show ?thesis by simp
qed

lemma fl_upper:
  assumes "1 \<le> (x::real)"
  shows "x < 2 ^ floorlog 2 (nat \<lfloor>x\<rfloor>)"
proof -
  let ?m = "nat \<lfloor>x\<rfloor>"
  have m: "0 < ?m" using assms by simp
  have "(1::nat) < 2" by simp
  from floorlog_bounds [OF m this] have "?m < 2 ^ floorlog 2 ?m" by blast
  then have "Suc ?m \<le> 2 ^ floorlog 2 ?m" by (rule Suc_leI)
  then have "real (Suc ?m) \<le> real (2 ^ floorlog 2 ?m)" by (simp only: of_nat_le_iff)
  then have "real ?m + 1 \<le> 2 ^ floorlog 2 ?m" by simp
  moreover have "x < real ?m + 1" using assms by linarith
  ultimately show ?thesis by linarith
qed

lemma fl_pos: "1 \<le> (x::real) \<Longrightarrow> 0 < floorlog 2 (nat \<lfloor>x\<rfloor>)"
  by (simp add: floorlog_def)

lemma cl_lower:
  assumes "0 < (x::real)"
  shows "1 / 2 ^ ceillog2 (nat \<lceil>1 / x\<rceil>) \<le> x"
proof -
  let ?m = "nat \<lceil>1 / x\<rceil>"
  have "1 / x \<le> real ?m" using assms by (simp add: of_nat_ceiling)
  also have "real ?m \<le> real (2 ^ ceillog2 ?m)"
    using le_two_power_ceillog2 [of ?m] by (simp only: of_nat_le_iff)
  finally have "1 / x \<le> 2 ^ ceillog2 ?m" by simp
  then have "1 \<le> 2 ^ ceillog2 ?m * x"
    using assms by (simp add: pos_divide_le_eq)
  then show ?thesis
    by (simp add: pos_divide_le_eq mult.commute)
qed

lemma cl_upper:
  assumes "0 < (x::real)" and "x < 1"
  shows "0 < ceillog2 (nat \<lceil>1 / x\<rceil>)" and "x < 1 / 2 ^ (ceillog2 (nat \<lceil>1 / x\<rceil>) - 1)"
proof -
  let ?m = "nat \<lceil>1 / x\<rceil>"
  let ?c = "ceillog2 ?m"
  have y: "1 < 1 / x" using assms by simp
  then have "1 < \<lceil>1 / x\<rceil>" by (simp only: less_ceiling_iff of_int_1)
  then have m2: "2 \<le> ?m" by linarith
  then have m: "0 < ?m" by linarith
  have "(2::nat) < 2 * ?m" using m2 by linarith
  then have "2 ^ 1 < 2 * ?m" by (simp only: power_one_right)
  then show c: "0 < ?c" using ceillog2_ge_iff [OF m, of 1] by linarith
  from two_power_ceillog2_gt [OF m] have "2 ^ ?c < 2 * ?m" .
  moreover have "(2::nat) ^ ?c = 2 * 2 ^ (?c - 1)" using c by (cases ?c) simp_all
  ultimately have "2 ^ (?c - 1) < ?m" by linarith
  then have "int (2 ^ (?c - 1)) < \<lceil>1 / x\<rceil>" using m by linarith
  then have "real_of_int (int (2 ^ (?c - 1))) < 1 / x" by (simp only: less_ceiling_iff)
  then have "2 ^ (?c - 1) < 1 / x" by simp
  then have "2 ^ (?c - 1) * x < 1" using assms by (simp add: pos_less_divide_eq)
  then show "x < 1 / 2 ^ (?c - 1)" by (simp add: pos_less_divide_eq mult.commute)
qed

lemma binade_lower: "0 < x \<Longrightarrow> 2 powi (binade x) \<le> x"
proof (cases "1 \<le> x")
  case True
  have "int (floorlog 2 (nat \<lfloor>x\<rfloor>)) - 1 = int (floorlog 2 (nat \<lfloor>x\<rfloor>) - 1)"
    using fl_pos [OF True] by linarith
  then have "binade x = int (floorlog 2 (nat \<lfloor>x\<rfloor>) - 1)"
    using True by (simp only: binade_def if_True)
  then show ?thesis using fl_lower [OF True] by (simp only: power_int_of_nat)
next
  case False
  assume "0 < x"
  from False have "binade x = - int (ceillog2 (nat \<lceil>1 / x\<rceil>))"
    by (simp only: binade_def if_False)
  then show ?thesis using cl_lower [OF \<open>0 < x\<close>]
    by (simp only: power_int_minus_divide power_int_of_nat)
qed

lemma binade_upper: "0 < x \<Longrightarrow> x < 2 powi (binade x + 1)"
proof (cases "1 \<le> x")
  case True
  have "binade x + 1 = int (floorlog 2 (nat \<lfloor>x\<rfloor>))"
    using True by (simp only: binade_def if_True)
  then show ?thesis using fl_upper [OF True] by (simp only: power_int_of_nat)
next
  case False
  assume x: "0 < x"
  from False have x1: "x < 1" by simp
  have "- int (ceillog2 (nat \<lceil>1 / x\<rceil>)) + 1 = - int (ceillog2 (nat \<lceil>1 / x\<rceil>) - 1)"
    using cl_upper(1) [OF x x1] by linarith
  then have "binade x + 1 = - int (ceillog2 (nat \<lceil>1 / x\<rceil>) - 1)"
    using False by (simp only: binade_def if_False)
  then show ?thesis using cl_upper(2) [OF x x1]
    by (simp only: power_int_minus_divide power_int_of_nat)
qed


lemma two_powi_less: "(2::real) powi a < 2 powi b \<Longrightarrow> a < b"
proof (rule ccontr)
  assume l: "(2::real) powi a < 2 powi b" and "\<not> a < b"
  then have "b \<le> a" by simp
  then have "(2::real) powi b \<le> 2 powi a" by (intro power_int_increasing) simp_all
  with l show False by simp
qed

lemma round_half_even_below:
  assumes "q < of_int M - 1 / 2"
  shows "round_half_even q \<le> M - 1"
proof -
  have f: "\<lfloor>q\<rfloor> \<le> M - 1" using assms by linarith
  show ?thesis
  proof (cases "\<lfloor>q\<rfloor> = M - 1")
    case True
    then have "q - of_int \<lfloor>q\<rfloor> < 1 / 2" using assms by simp
    then show ?thesis using True by (simp add: round_half_even_def)
  next
    case False
    with f have "\<lfloor>q\<rfloor> + 1 \<le> M - 1" by simp
    then show ?thesis by (simp add: round_half_even_def)
  qed
qed

lemma round_half_even_nonneg: "0 \<le> q \<Longrightarrow> 0 \<le> round_half_even q"
  by (simp add: round_half_even_def)

lemma round_pos_nonneg: "0 \<le> x \<Longrightarrow> 0 \<le> round_pos x"
  by (simp add: round_pos_def round_half_even_nonneg)

lemma round_pos_below:
  fixes n :: nat
  assumes x: "0 < x" and le: "x \<le> real n * (1 - 1 / 2 ^ 53)" and n1: "1 \<le> n" and n31: "n < 2 ^ 31"
  shows "round_pos x < real n"
proof -
  define E where "E = max (binade x) (- 1022)"
  define u :: real where "u = 2 powi (E - 52)"
  define M :: int where "M = int n * 2 ^ nat (52 - E)"
  have u: "0 < u" by (simp add: u_def)
  have xn: "x < real n"
  proof -
    have "real n * (1 - 1 / 2 ^ 53) < real n * 1"
      using n1 by (intro mult_strict_left_mono) simp_all
    with le show ?thesis by simp
  qed
  have En: "2 powi E < real n"
  proof (cases "binade x \<le> - 1022")
    case True
    then have "E = - 1022" by (simp add: E_def)
    moreover have "(2::real) powi (- 1022) < 2 powi 0"
      by (intro power_int_strict_increasing) simp_all
    ultimately show ?thesis using n1 by simp
  next
    case False
    then have "E = binade x" by (simp add: E_def)
    with binade_lower [OF x] xn show ?thesis by simp
  qed
  have "real n < 2 ^ 31" using n31 by (metis of_nat_less_iff of_nat_numeral of_nat_power)
  then have "real n < 2 powi 31" by simp
  with En have "(2::real) powi E < 2 powi 31" by linarith
  then have E31: "E < 31" by (rule two_powi_less)
  then have "of_int M = real n * 2 powi (52 - E)"
    by (simp add: M_def power_int_nonneg_exp)
  moreover have "(2::real) powi (52 - E) * 2 powi (E - 52) = 1"
    by (simp flip: power_int_add)
  ultimately have Mu: "of_int M * u = real n"
    by (simp add: u_def mult.assoc)
  have "(2::real) powi (53 + (E - 52)) = 2 powi 53 * 2 powi (E - 52)"
    by (rule power_int_add) simp
  moreover have "53 + (E - 52) = E + 1" by simp
  ultimately have "(2::real) powi (E + 1) = 2 powi 53 * 2 powi (E - 52)"
    by (simp only:)
  moreover have "(2::real) powi (E + 1) = 2 powi E * 2 powi 1"
    by (rule power_int_add) simp
  ultimately have u53: "(2::real) ^ 53 * u = 2 * 2 powi E"
    by (simp add: u_def)
  have "x / u \<le> real n * (1 - 1 / 2 ^ 53) / u"
    by (rule divide_right_mono [OF le]) (use u in simp)
  also have "\<dots> = real n / u - real n / (2 ^ 53 * u)"
    by (simp add: field_simps)
  also have "\<dots> = of_int M - real n / (2 * 2 powi E)"
  proof -
    have "real n / u = of_int M" using Mu u by (simp add: field_simps)
    then show ?thesis by (simp only: u53)
  qed
  also have "\<dots> < of_int M - 1 / 2"
  proof -
    have "1 < real n / 2 powi E" using En by simp
    then have "1 / 2 < real n / (2 * 2 powi E)" by simp
    then show ?thesis by simp
  qed
  finally have "x / u < of_int M - 1 / 2" .
  then have "round_half_even (x / u) \<le> M - 1" by (rule round_half_even_below)
  then have "real_of_int (round_half_even (x / u)) \<le> of_int M - 1" by linarith
  then have "real_of_int (round_half_even (x / u)) * u \<le> (of_int M - 1) * u"
    using u by (simp add: mult_right_mono)
  also have "\<dots> = real n - u" using Mu by (simp add: algebra_simps)
  also have "\<dots> < real n" using u by simp
  finally have "real_of_int (round_half_even (x / u)) * u < real n" .
  moreover have "round_pos x = real_of_int (round_half_even (x / u)) * u"
    using x by (simp add: round_pos_def u_def E_def)
  ultimately show ?thesis by simp
qed

lemma binary64_below_one:
  assumes b: "binary64 r" and r0: "0 \<le> r" and r1: "r < 1"
  shows "r \<le> 1 - 1 / 2 ^ 53"
proof (cases "r < 1 / 2")
  case True
  then show ?thesis by simp
next
  case False
  then have r: "0 < r" "1 / 2 \<le> r" by simp_all
  have "(2::real) powi (binade r) \<le> r" by (rule binade_lower [OF r(1)])
  with r1 have "(2::real) powi (binade r) < 2 powi 0" by simp
  then have up: "binade r < 0" by (rule two_powi_less)
  have "(2::real) powi (- 1) \<le> r" using r(2) by (simp add: power_int_minus_divide)
  with binade_upper [OF r(1)] have "(2::real) powi (- 1) < 2 powi (binade r + 1)" by linarith
  then have "- 1 < binade r + 1" by (rule two_powi_less)
  with up have be: "binade r = - 1" by linarith
  define m where "m = round_half_even (r / 2 powi (- 53))"
  have "round_pos r = of_int m * 2 powi (- 53)"
    using r(1) be by (simp add: round_pos_def m_def)
  moreover have "to_double r = round_pos r" using r0 by (simp add: to_double_def)
  ultimately have rm: "r = of_int m * 2 powi (- 53)"
    using b by (simp add: binary64_def)
  have p: "(2::real) powi (- 53) = 1 / 2 ^ 53" by (simp add: power_int_minus_divide)
  from rm r1 have "real_of_int m < 2 ^ 53" by (simp add: p field_simps)
  then have "real_of_int m < real_of_int (2 ^ 53)" by simp
  then have "m < 2 ^ 53" by (simp only: of_int_less_iff)
  then have "m \<le> 2 ^ 53 - 1" by simp
  then have "real_of_int m \<le> real_of_int (2 ^ 53 - 1)" by (simp only: of_int_le_iff)
  then have "real_of_int m \<le> 2 ^ 53 - 1" by simp
  then have "real_of_int m * (1 / 2 ^ 53) \<le> (2 ^ 53 - 1) * (1 / 2 ^ 53)"
    by (intro mult_right_mono) simp_all
  then show ?thesis using rm p by (simp add: field_simps)
qed

lemma random_index_bounds:
  assumes "binary64 r" and "0 \<le> r" and "r < 1" and "1 \<le> n" and "n < 2 ^ 31"
  shows "0 \<le> random_index r n" and "random_index r n < int n"
proof -
  have x0: "0 \<le> r * real n" using assms(2) by simp
  then have td: "double_mult r (real n) = round_pos (r * real n)"
    by (simp add: double_mult_def to_double_def)
  show "0 \<le> random_index r n"
    using round_pos_nonneg [OF x0] by (simp add: random_index_def td)
  have "round_pos (r * real n) < real n"
  proof (cases "r * real n = 0")
    case True
    then show ?thesis using assms(4) by (simp add: round_pos_def)
  next
    case False
    with x0 have x: "0 < r * real n" by linarith
    have "r \<le> 1 - 1 / 2 ^ 53" using assms(1-3) by (rule binary64_below_one)
    then have "r * real n \<le> (1 - 1 / 2 ^ 53) * real n"
      by (intro mult_right_mono) simp_all
    then have "r * real n \<le> real n * (1 - 1 / 2 ^ 53)" by (simp add: mult.commute)
    from round_pos_below [OF x this assms(4,5)] show ?thesis .
  qed
  then have "\<lfloor>round_pos (r * real n)\<rfloor> < int n" by linarith
  then show "random_index r n < int n" by (simp add: random_index_def td)
qed


lemma random_line_in_bounds:
  assumes "binary64 (rand_val env (rand_calls st))" and "0 \<le> rand_val env (rand_calls st)"
    and "rand_val env (rand_calls st) < 1"
    and "1 \<le> length (emuVocabLines globals)" and "length (emuVocabLines globals) < 2 ^ 31"
  shows "random_line env globals st =
    Inr (emuVocabLines globals !
           nat (random_index (rand_val env (rand_calls st)) (length (emuVocabLines globals))),
         st\<lparr>rand_calls := Suc (rand_calls st)\<rparr>)"
  using random_index_bounds [OF assms]
  by (simp add: random_line_def draw_def line_at_def)

text \<open>
  The two branches of \<open>choose_word\<close> that draw a random line.
\<close>

lemma choose_word_random:
  "rank0 < 0 \<and> \<not> preserveNoExists params \<or> int (length (emuVocabLines globals)) \<le> rank0 \<Longrightarrow>
   choose_word env globals params rank0 st = random_line env globals st"
  by (auto simp: choose_word_def)

text \<open>
  Claim C10. In both branches that choose a random substitute the index is
  \<open>random_index r n\<close>, the floor of the binary64 product of the draw \<open>r\<close> and the
  number \<open>n\<close> of lines of the emulated vocabulary. For a draw that is a binary64
  number in the unit interval and an emulated vocabulary of at least one line (and of
  fewer than \<open>2 ^ 31\<close>, the count being an \<^verbatim>\<open>int\<close>), the index is at least 0 and
  less than \<open>n\<close>, so the read of the line array is in bounds and the line read is the
  one at that index: this is what \<open>random_line\<close> returns, and what \<open>choose_word\<close> returns
  both for a word that was not found, placeholders being off, and for a rank beyond
  the emulated vocabulary.
\<close>

theorem random_index_in_bounds:
  assumes "binary64 (rand_val env (rand_calls st))" and "0 \<le> rand_val env (rand_calls st)"
    and "rand_val env (rand_calls st) < 1"
    and "1 \<le> length (emuVocabLines globals)" and "length (emuVocabLines globals) < 2 ^ 31"
  shows "0 \<le> random_index (rand_val env (rand_calls st)) (length (emuVocabLines globals)) \<and>
    random_index (rand_val env (rand_calls st)) (length (emuVocabLines globals))
      < int (length (emuVocabLines globals)) \<and>
    random_line env globals st =
      Inr (emuVocabLines globals !
             nat (random_index (rand_val env (rand_calls st)) (length (emuVocabLines globals))),
           st\<lparr>rand_calls := Suc (rand_calls st)\<rparr>) \<and>
    (rank0 < 0 \<and> \<not> preserveNoExists params \<or> int (length (emuVocabLines globals)) \<le> rank0 \<longrightarrow>
      choose_word env globals params rank0 st =
        Inr (emuVocabLines globals !
               nat (random_index (rand_val env (rand_calls st)) (length (emuVocabLines globals))),
             st\<lparr>rand_calls := Suc (rand_calls st)\<rparr>))"
  using random_index_bounds [OF assms] random_line_in_bounds [OF assms]
    choose_word_random [of rank0 params globals env st]
  by simp

lemma third_below: "binary64 (6004799503160661 / 2 ^ 54) \<and> random_index (6004799503160661 / 2 ^ 54) 3 = 1
  \<and> random_index (6004799503160661 / 2 ^ 54) 2 = 0"
  by code_simp

theorem random_index_in_bounds_witness:
  "binary64 (rand_val (const_env (6004799503160661 / 2 ^ 54) True) (rand_calls start)) \<and>
   0 \<le> rand_val (const_env (6004799503160661 / 2 ^ 54) True) (rand_calls start) \<and>
   rand_val (const_env (6004799503160661 / 2 ^ 54) True) (rand_calls start) < 1 \<and>
   1 \<le> length (emuVocabLines example_globals) \<and> length (emuVocabLines example_globals) < 2 ^ 31 \<and>
   random_index (6004799503160661 / 2 ^ 54) (length (emuVocabLines example_globals)) = 0 \<and>
   choose_word (const_env (6004799503160661 / 2 ^ 54) True) example_globals
     \<lparr>obfuscate = False, preserveNoExists = False\<rparr> (- 1) start =
     Inr (zeta_line, start\<lparr>rand_calls := Suc (rand_calls start)\<rparr>) \<and>
   choose_word (const_env (6004799503160661 / 2 ^ 54) True) example_globals
     \<lparr>obfuscate = False, preserveNoExists = True\<rparr> 2 start =
     Inr (zeta_line, start\<lparr>rand_calls := Suc (rand_calls start)\<rparr>)"
proof -
  have b: "binary64 (rand_val (const_env (6004799503160661 / 2 ^ 54) True) (rand_calls start))"
    using third_below by (simp add: const_env_def)
  have r: "0 \<le> rand_val (const_env (6004799503160661 / 2 ^ 54) True) (rand_calls start)"
    "rand_val (const_env (6004799503160661 / 2 ^ 54) True) (rand_calls start) < 1"
    by (simp_all add: const_env_def)
  have n: "1 \<le> length (emuVocabLines example_globals)" "length (emuVocabLines example_globals) < 2 ^ 31"
    by (simp_all add: example_globals_def)
  have l: "length (emuVocabLines example_globals) = 2"
    by (simp add: example_globals_def)
  have v: "rand_val (const_env (6004799503160661 / 2 ^ 54) True) (rand_calls start)
      = 6004799503160661 / 2 ^ 54"
    by (simp add: const_env_def)
  have i: "random_index (6004799503160661 / 2 ^ 54) (length (emuVocabLines example_globals)) = 0"
    unfolding l using third_below by blast
  have z: "emuVocabLines example_globals ! nat 0 = zeta_line"
    by (simp add: example_globals_def)
  have c1: "(- 1 :: int) < 0 \<and> \<not> preserveNoExists \<lparr>obfuscate = False, preserveNoExists = False\<rparr>
      \<or> int (length (emuVocabLines example_globals)) \<le> - 1"
    by simp
  have c2: "(2 :: int) < 0 \<and> \<not> preserveNoExists \<lparr>obfuscate = False, preserveNoExists = True\<rparr>
      \<or> int (length (emuVocabLines example_globals)) \<le> 2"
    by (simp add: l)
  from random_index_in_bounds [OF b r n, of "- 1" "\<lparr>obfuscate = False, preserveNoExists = False\<rparr>"] c1
  have a1: "choose_word (const_env (6004799503160661 / 2 ^ 54) True) example_globals
     \<lparr>obfuscate = False, preserveNoExists = False\<rparr> (- 1) start =
     Inr (zeta_line, start\<lparr>rand_calls := Suc (rand_calls start)\<rparr>)"
    unfolding v i z by blast
  from random_index_in_bounds [OF b r n, of 2 "\<lparr>obfuscate = False, preserveNoExists = True\<rparr>"] c2
  have a2: "choose_word (const_env (6004799503160661 / 2 ^ 54) True) example_globals
     \<lparr>obfuscate = False, preserveNoExists = True\<rparr> 2 start =
     Inr (zeta_line, start\<lparr>rand_calls := Suc (rand_calls start)\<rparr>)"
    unfolding v i z by blast
  from i b r n a1 a2 show ?thesis by blast
qed


section \<open>Ranks beyond the emulated vocabulary\<close>

lemma jitter_range: "rank0 - 1 \<le> jitter r rank0 \<and> jitter r rank0 \<le> rank0 + 1"
  by (simp add: jitter_def)

lemma choose_word_beyond:
  assumes "int (length (emuVocabLines globals)) \<le> rank0"
    and "binary64 (rand_val env (rand_calls st))" and "0 \<le> rand_val env (rand_calls st)"
    and "rand_val env (rand_calls st) < 1"
    and "1 \<le> length (emuVocabLines globals)" and "length (emuVocabLines globals) < 2 ^ 31"
  shows "choose_word env globals params rank0 st =
    Inr (emuVocabLines globals !
           nat (random_index (rand_val env (rand_calls st)) (length (emuVocabLines globals))),
         st\<lparr>rand_calls := Suc (rand_calls st)\<rparr>)"
  using assms(1,5) random_line_in_bounds [OF assms(2-6)]
  by (simp add: choose_word_def)

lemma choose_word_within:
  assumes "0 \<le> rank0" and "rank0 < int (length (emuVocabLines globals))"
  shows "choose_word env globals params rank0 st = Inr (emuVocabLines globals ! nat rank0, st)"
  using assms by (simp add: choose_word_def line_at_def)

text \<open>
  Claim C5, amended. For a query word whose rank in the base vocabulary exceeds the
  number of lines of a non-empty emulated vocabulary, the output loop is started at a
  line of the emulated vocabulary and the counter of the placeholders stays, whatever
  \<^verbatim>\<open>preserveNoExists\<close> is. The line is the one at the index of a fresh draw, except
  when obfuscation is on, the rank is the number of lines plus 1 and the draw of the
  jitter is below \<^verbatim>\<open>0.3333333\<close>: then the jitter has brought the rank into range, no
  further draw is taken and the line is the last one.
\<close>

theorem rank_beyond_emulated:
  assumes rk: "getRankInBase globals inWord = Inr rank"
    and beyond: "int (length (emuVocabLines globals)) < rank" and int: "rank < 2 ^ 31"
    and nonempty: "1 \<le> length (emuVocabLines globals)"
    and d1: "binary64 (rand_val env (rand_calls st))" "0 \<le> rand_val env (rand_calls st)"
      "rand_val env (rand_calls st) < 1"
    and d2: "binary64 (rand_val env (Suc (rand_calls st)))" "0 \<le> rand_val env (Suc (rand_calls st))"
      "rand_val env (Suc (rand_calls st)) < 1"
  shows "\<exists>p st'. resolve env globals params inWord st = Inr (p, st') \<and>
    p \<in> set (emuVocabLines globals) \<and> noexistNum st' = noexistNum st \<and>
    (if obfuscate params \<and> jitter (rand_val env (rand_calls st)) (rank - 1) < int (length (emuVocabLines globals))
     then p = emuVocabLines globals ! (length (emuVocabLines globals) - 1) \<and>
          rand_calls st' = Suc (rand_calls st) \<and>
          rank = int (length (emuVocabLines globals)) + 1 \<and>
          rand_val env (rand_calls st) < const_0_3333333
     else p = emuVocabLines globals !
            nat (random_index (rand_val env (rand_calls st' - 1)) (length (emuVocabLines globals))) \<and>
          rand_calls st' = (if obfuscate params then rand_calls st + 2 else rand_calls st + 1))"
proof -
  let ?n = "length (emuVocabLines globals)"
  let ?r1 = "rand_val env (rand_calls st)"
  have "int ?n < int (2 ^ 31)" using beyond int by simp
  then have n31: "?n < 2 ^ 31" by (simp only: of_nat_less_iff)
  have r1: "1 \<le> rank" using beyond by linarith
  show ?thesis
  proof (cases "obfuscate params")
    case False
    then have "resolve env globals params inWord st = choose_word env globals params (rank - 1) st"
      using rk int r1 by (simp add: resolve_def)
    also have "\<dots> = Inr (emuVocabLines globals ! nat (random_index ?r1 ?n), st\<lparr>rand_calls := Suc (rand_calls st)\<rparr>)"
      using beyond by (intro choose_word_beyond d1 nonempty n31) simp
    finally have res: "resolve env globals params inWord st
      = Inr (emuVocabLines globals ! nat (random_index ?r1 ?n), st\<lparr>rand_calls := Suc (rand_calls st)\<rparr>)" .
    have "nat (random_index ?r1 ?n) < ?n"
      using random_index_bounds [OF d1 nonempty n31] by linarith
    then have "emuVocabLines globals ! nat (random_index ?r1 ?n) \<in> set (emuVocabLines globals)"
      by (rule nth_mem)
    with res False show ?thesis by simp
  next
    case True
    let ?st1 = "st\<lparr>rand_calls := Suc (rand_calls st)\<rparr>"
    let ?j = "jitter ?r1 (rank - 1)"
    have res: "resolve env globals params inWord st = choose_word env globals params ?j ?st1"
      using True rk r1 by (rule resolve_obfuscate)
    show ?thesis
    proof (cases "?j < int ?n")
      case False
      let ?r2 = "rand_val env (Suc (rand_calls st))"
      have "choose_word env globals params ?j ?st1
        = Inr (emuVocabLines globals ! nat (random_index (rand_val env (rand_calls ?st1)) ?n),
               ?st1\<lparr>rand_calls := Suc (rand_calls ?st1)\<rparr>)"
        using False d2 by (intro choose_word_beyond nonempty n31) simp_all
      with res have res2: "resolve env globals params inWord st
        = Inr (emuVocabLines globals ! nat (random_index ?r2 ?n), st\<lparr>rand_calls := rand_calls st + 2\<rparr>)"
        by simp
      have "nat (random_index ?r2 ?n) < ?n"
        using random_index_bounds [OF d2 nonempty n31] by linarith
      then have "emuVocabLines globals ! nat (random_index ?r2 ?n) \<in> set (emuVocabLines globals)"
        by (rule nth_mem)
      with res2 True False show ?thesis by simp
    next
      case less: True
      have jr: "rank - 1 - 1 \<le> ?j" using jitter_range [of "rank - 1" ?r1] by simp
      with less beyond have jn: "?j = int ?n - 1" and rn: "rank = int ?n + 1" by linarith+
      have dec: "?j = (rank - 1) - 1" using jn rn by simp
      then have small: "?r1 < const_0_3333333"
        using jitter_cases [of ?r1 "rank - 1"] by blast
      have "0 \<le> ?j" "?j < int ?n" using jn nonempty by linarith+
      then have "choose_word env globals params ?j ?st1 = Inr (emuVocabLines globals ! nat ?j, ?st1)"
        by (rule choose_word_within)
      moreover have "nat ?j = ?n - 1" using jn by simp
      ultimately have res2: "resolve env globals params inWord st
        = Inr (emuVocabLines globals ! (?n - 1), ?st1)"
        using res by simp
      have "?n - 1 < ?n" using nonempty by linarith
      then have "emuVocabLines globals ! (?n - 1) \<in> set (emuVocabLines globals)"
        by (rule nth_mem)
      with res2 True less rn small show ?thesis by simp
    qed
  qed
qed

lemma cherry_rank: "getRankInBase cherry_globals ''cherry'' = Inr 3"
  by code_simp

lemma quarter: "binary64 (1 / 4) \<and> random_index (1 / 4) 2 = 0"
  by code_simp

lemma cherry_resolve:
  "resolve (const_env (1 / 4) False) cherry_globals \<lparr>obfuscate = True, preserveNoExists = True\<rparr>
     ''cherry'' start = Inr (yak_line, start\<lparr>rand_calls := 1\<rparr>)"
proof -
  have "resolve (const_env (1 / 4) False) cherry_globals \<lparr>obfuscate = True, preserveNoExists = True\<rparr>
     ''cherry'' start
    = choose_word (const_env (1 / 4) False) cherry_globals \<lparr>obfuscate = True, preserveNoExists = True\<rparr>
        (jitter (rand_val (const_env (1 / 4) False) (rand_calls start)) (3 - 1))
        (start\<lparr>rand_calls := Suc (rand_calls start)\<rparr>)"
    by (rule resolve_obfuscate [OF _ cherry_rank]) simp_all
  moreover have "jitter (rand_val (const_env (1 / 4) False) (rand_calls start)) (3 - 1) = 1"
    by (simp add: jitter_def const_env_def const_0_3333333_def const_0_6666667_def)
  moreover have "choose_word (const_env (1 / 4) False) cherry_globals \<lparr>obfuscate = True, preserveNoExists = True\<rparr>
        1 (start\<lparr>rand_calls := Suc (rand_calls start)\<rparr>)
      = Inr (emuVocabLines cherry_globals ! nat 1, start\<lparr>rand_calls := Suc (rand_calls start)\<rparr>)"
    by (rule choose_word_within) (simp_all add: cherry_globals_def)
  ultimately show ?thesis by (simp add: cherry_globals_def start_def)
qed

text \<open>
  Claim C5 as it is stated fails where it says that the word is selected by a fresh
  draw. The word \<^verbatim>\<open>cherry\<close> has rank 3, the emulated vocabulary two lines; with
  obfuscation on and every draw equal to one quarter, the jitter lowers the 0-origin rank
  from 2 to 1 and the program emits line 1, \<^verbatim>\<open>yak\<close>, after that one draw. A draw of
  one quarter selects line 0, \<^verbatim>\<open>zeta\<close>.
\<close>

theorem jitter_selects_without_draw:
  "getRankInBase cherry_globals ''cherry'' = Inr 3 \<and>
   int (length (emuVocabLines cherry_globals)) < 3 \<and>
   binary64 (1 / 4) \<and>
   resolve (const_env (1 / 4) False) cherry_globals \<lparr>obfuscate = True, preserveNoExists = True\<rparr>
     ''cherry'' start = Inr (yak_line, start\<lparr>rand_calls := 1\<rparr>) \<and>
   emuVocabLines cherry_globals ! nat (random_index (1 / 4) (length (emuVocabLines cherry_globals)))
     = zeta_line \<and>
   word_of zeta_line \<noteq> word_of yak_line"
proof -
  have l: "length (emuVocabLines cherry_globals) = 2" by (simp add: cherry_globals_def)
  have "emuVocabLines cherry_globals ! nat (random_index (1 / 4) 2) = zeta_line"
    using quarter by (simp add: cherry_globals_def)
  moreover have "word_of zeta_line \<noteq> word_of yak_line"
    by (simp add: word_of_def zeta_line_def yak_line_def newline_def u_char_def)
  ultimately show ?thesis
    using cherry_rank cherry_resolve quarter l by simp
qed

theorem rank_beyond_emulated_witness:
  "getRankInBase cherry_globals ''cherry'' = Inr 3 \<and>
   int (length (emuVocabLines cherry_globals)) < 3 \<and> (3::int) < 2 ^ 31 \<and>
   1 \<le> length (emuVocabLines cherry_globals) \<and>
   binary64 (rand_val (const_env (1 / 4) False) (rand_calls start)) \<and>
   0 \<le> rand_val (const_env (1 / 4) False) (rand_calls start) \<and>
   rand_val (const_env (1 / 4) False) (rand_calls start) < 1 \<and>
   (\<exists>p st'. resolve (const_env (1 / 4) False) cherry_globals
        \<lparr>obfuscate = False, preserveNoExists = True\<rparr> ''cherry'' start = Inr (p, st') \<and>
      p \<in> set (emuVocabLines cherry_globals) \<and> noexistNum st' = noexistNum start \<and>
      p = emuVocabLines cherry_globals !
            nat (random_index (rand_val (const_env (1 / 4) False) (rand_calls st' - 1))
                   (length (emuVocabLines cherry_globals))) \<and>
      rand_calls st' = rand_calls start + 1)"
proof -
  have l: "int (length (emuVocabLines cherry_globals)) < 3" "(3::int) < 2 ^ 31"
    "1 \<le> length (emuVocabLines cherry_globals)"
    by (simp_all add: cherry_globals_def)
  have d: "binary64 (rand_val (const_env (1 / 4) False) k)"
    "0 \<le> rand_val (const_env (1 / 4) False) k" "rand_val (const_env (1 / 4) False) k < 1" for k
    using quarter by (simp_all add: const_env_def)
  from rank_beyond_emulated [OF cherry_rank l d d,
      where params = "\<lparr>obfuscate = False, preserveNoExists = True\<rparr>"]
  have "\<exists>p st'. resolve (const_env (1 / 4) False) cherry_globals
        \<lparr>obfuscate = False, preserveNoExists = True\<rparr> ''cherry'' start = Inr (p, st') \<and>
      p \<in> set (emuVocabLines cherry_globals) \<and> noexistNum st' = noexistNum start \<and>
      p = emuVocabLines cherry_globals !
            nat (random_index (rand_val (const_env (1 / 4) False) (rand_calls st' - 1))
                   (length (emuVocabLines cherry_globals))) \<and>
      rand_calls st' = rand_calls start + 1"
    by simp
  with cherry_rank l d show ?thesis by blast
qed

section \<open>The counter of the placeholders\<close>
































section \<open>The output line\<close>













end
